theory Spec2Isabelle
  imports Main "HOL-Library.Monad_Syntax" "HOL-Library.Word"
begin

unbundle bit_operations_syntax

section \<open>Strings as JavaScript sees them\<close>

text \<open>
  \<open>String.prototype.slice(from, to)\<close> and \<open>substring(a, b)\<close> on in-range, non-negative
  offsets: \<open>slice\<close> is empty when \<open>to \<le> from\<close>, \<open>substring\<close> swaps its arguments when
  they are out of order; both clamp at the end of the string.
\<close>

definition slice :: "string \<Rightarrow> nat \<Rightarrow> nat \<Rightarrow> string" where
  "slice s from to = take (to - from) (drop from s)"

definition substring :: "string \<Rightarrow> nat \<Rightarrow> nat \<Rightarrow> string" where
  "substring s a b = slice s (min a b) (max a b)"

text \<open>\<open>s.includes(p)\<close>: \<open>p\<close> occurs in \<open>s\<close> as a contiguous run.\<close>

fun str_includes :: "string \<Rightarrow> string \<Rightarrow> bool" where
  "str_includes [] p = (p = [])"
| "str_includes (c # cs) p = (take (length p) (c # cs) = p \<or> str_includes cs p)"

text \<open>\<open>s.substr(-n)\<close>: the last \<open>n\<close> characters, the whole string when it is shorter.\<close>

definition substr_last :: "string \<Rightarrow> nat \<Rightarrow> string" where
  "substr_last s n = drop (length s - n) s"

section \<open>Syntax trees of the host compiler\<close>

text \<open>
  A node owns the text from \<open>getFullStart\<close> (leading trivia included) to \<open>getEnd\<close>;
  \<open>getStart\<close> is where its first token begins.
\<close>

record span =
  fullStart :: nat
  start :: nat
  end' :: nat

datatype declKind =
    ClassDeclaration | Constructor | PropertyDeclaration | SetAccessor | GetAccessor
  | MethodDeclaration | Parameter | OtherDeclaration string

text \<open>
  The node shapes the downleveler distinguishes. A declaration carries the fields the
  pass reads (\<open>decorators\<close>, \<open>name\<close>, \<open>parameters\<close>, \<open>type\<close>) and its remaining children in
  the order in which the compiler's \<open>forEachChild\<close> yields them: modifiers before the
  name, type parameters and heritage clauses after it, and the body (class members,
  initializer or function body) last. \<open>decorators\<close> is \<open>None\<close> for a declaration that has
  no decorator list at all.
\<close>

datatype node =
    IdentifierNode span string
  | CallExpressionNode span node "node list" "node list"
  | DecoratorNode decorator
  | DeclarationNode declKind span "decorator list option" "node list" "node option"
      "node list" "node list" "node option" "node list"
  | OtherNode string span "node list"
and decorator = MkDecorator span node

fun decoratorSpan :: "decorator \<Rightarrow> span" where
  "decoratorSpan (MkDecorator sp e) = sp"

fun expression :: "decorator \<Rightarrow> node" where
  "expression (MkDecorator sp e) = e"

fun nodeSpan :: "node \<Rightarrow> span" where
  "nodeSpan (IdentifierNode sp t) = sp"
| "nodeSpan (CallExpressionNode sp f tas as) = sp"
| "nodeSpan (DecoratorNode d) = decoratorSpan d"
| "nodeSpan (DeclarationNode k sp ds ms n tps ps ty b) = sp"
| "nodeSpan (OtherNode k sp cs) = sp"

definition getFullStart :: "node \<Rightarrow> nat" where
  "getFullStart n = fullStart (nodeSpan n)"

definition getStart :: "node \<Rightarrow> nat" where
  "getStart n = start (nodeSpan n)"

definition getEnd :: "node \<Rightarrow> nat" where
  "getEnd n = end' (nodeSpan n)"

fun kindName :: "node \<Rightarrow> string" where
  "kindName (IdentifierNode sp t) = ''Identifier''"
| "kindName (CallExpressionNode sp f tas as) = ''CallExpression''"
| "kindName (DecoratorNode d) = ''Decorator''"
| "kindName (DeclarationNode k sp ds ms n tps ps ty b) =
     (case k of ClassDeclaration \<Rightarrow> ''ClassDeclaration'' | Constructor \<Rightarrow> ''Constructor''
      | PropertyDeclaration \<Rightarrow> ''PropertyDeclaration'' | SetAccessor \<Rightarrow> ''SetAccessor''
      | GetAccessor \<Rightarrow> ''GetAccessor'' | MethodDeclaration \<Rightarrow> ''MethodDeclaration''
      | Parameter \<Rightarrow> ''Parameter'' | OtherDeclaration s \<Rightarrow> s)"
| "kindName (OtherNode k sp cs) = k"

text \<open>The fields a visitor reads off a node; absent fields are \<open>undefined\<close> in the source.\<close>

fun decoratorsOf :: "node \<Rightarrow> decorator list option" where
  "decoratorsOf (DeclarationNode k sp ds ms n tps ps ty b) = ds"
| "decoratorsOf _ = None"

fun nameOf :: "node \<Rightarrow> node option" where
  "nameOf (DeclarationNode k sp ds ms n tps ps ty b) = n"
| "nameOf _ = None"

fun parameters :: "node \<Rightarrow> node list" where
  "parameters (DeclarationNode k sp ds ms n tps ps ty b) = ps"
| "parameters _ = []"

fun typeOf :: "node \<Rightarrow> node option" where
  "typeOf (DeclarationNode k sp ds ms n tps ps ty b) = ty"
| "typeOf _ = None"

text \<open>The children of a node, in the order \<open>ts.forEachChild\<close> visits them.\<close>

fun forEachChild :: "node \<Rightarrow> node list" where
  "forEachChild (IdentifierNode sp t) = []"
| "forEachChild (CallExpressionNode sp f tas as) = f # tas @ as"
| "forEachChild (DecoratorNode d) = [expression d]"
| "forEachChild (DeclarationNode k sp ds ms n tps ps ty b) =
     map DecoratorNode (case ds of None \<Rightarrow> [] | Some l \<Rightarrow> l) @ ms @
     (case n of None \<Rightarrow> [] | Some x \<Rightarrow> [x]) @ tps @ ps @
     (case ty of None \<Rightarrow> [] | Some x \<Rightarrow> [x]) @ b"
| "forEachChild (OtherNode k sp cs) = cs"

section \<open>What the type checker tells the downleveler\<close>

datatype SyntaxKind = VariableDeclaration | VariableDeclarationList | OtherKind string

text \<open>
  A declaration site a decorator resolves to, possibly in another file: its kind, its
  parent chain and its full text (leading comments included).
\<close>

datatype declSite = DeclSite (siteKind: SyntaxKind) (parent: "declSite option") (getFullText: string)

record valueDeclaration =
  declName :: "node option"
  declSourceFile :: string

record symbol =
  flags :: "32 word"
  valueDecl :: "valueDeclaration option"

text \<open>
  The collaborators of the pass that live outside it: the text and name of the file being
  rewritten, the declarations a decorator resolves to (\<open>getDecoratorDeclarations\<close>), the
  compiler's scanner for leading comments (\<open>ts.getLeadingCommentRanges(text, 0)\<close>), the
  symbol of the type written at a parameter, the \<open>SymbolFlags.Value\<close> mask, and the type
  translator's \<open>symbolToString\<close> (built for that type node).
\<close>

record env =
  fileText :: string
  sourceFileName :: string
  getDecoratorDeclarations :: "decorator \<Rightarrow> declSite list"
  getLeadingCommentRanges :: "string \<Rightarrow> (nat \<times> nat) list option"
  getSymbolAtType :: "node \<Rightarrow> symbol option"
  SymbolFlags_Value :: "32 word"
  symbolToString :: "node \<Rightarrow> symbol \<Rightarrow> string"

section \<open>The rewriter\<close>

record diagnostic =
  position :: nat
  messageText :: string

text \<open>
  Modelled from the spec: the base \<open>Rewriter\<close> (section 4.1), which is not among the
  sources. \<open>emit\<close> appends synthetic text, \<open>writeRange\<close> copies the range \<open>[from, to)\<close> of
  the input, \<open>error\<close> records a diagnostic at the node's position and keeps going,
  \<open>writeNodeFrom\<close> copies a node from a position on while descending into its children,
  and \<open>visit\<close> asks \<open>maybeProcess\<close> first and copies the node when it is not handled.
  The output is the list of pieces written so far; \<open>getOutput\<close> joins them. The cursor of
  section 4.1 is read by no operation and is left out.
\<close>

record visitor =
  decorators :: "decorator list option"
  ctorParameters :: "((symbol \<times> string) option \<times> decorator list option) option list option"
  propDecorators :: "(string \<times> decorator list) list option"
  importedNames :: "(node \<times> node list) list"

record state =
  outputs :: "string list"
  diagnostics :: "diagnostic list"
  currentDecoratorConverter :: "visitor option"

definition emit :: "string \<Rightarrow> state \<Rightarrow> state" where
  "emit str st = st\<lparr>outputs := outputs st @ [str]\<rparr>"

definition writeRange :: "env \<Rightarrow> nat \<Rightarrow> nat \<Rightarrow> state \<Rightarrow> state" where
  "writeRange e from to st = emit (slice (fileText e) from to) st"

definition error :: "node \<Rightarrow> string \<Rightarrow> state \<Rightarrow> state" where
  "error n msg st =
     st\<lparr>diagnostics := diagnostics st @ [\<lparr>position = getStart n, messageText = msg\<rparr>]\<rparr>"

definition errorUnimplementedKind :: "node \<Rightarrow> string \<Rightarrow> state \<Rightarrow> state" where
  "errorUnimplementedKind n where' st = error n (kindName n @ '' not implemented in '' @ where') st"

definition getOutput :: "state \<Rightarrow> string \<times> diagnostic list" where
  "getOutput st = (concat (outputs st), diagnostics st)"

text \<open>
  The traversal calls back into \<open>visit\<close>, which is passed as \<open>V\<close>. A result \<open>None\<close> means
  that the call does not return normally.
\<close>

fun writeChildren ::
  "(node \<Rightarrow> state \<Rightarrow> state option) \<Rightarrow> env \<Rightarrow> nat \<Rightarrow> node list \<Rightarrow> state \<Rightarrow> (nat \<times> state) option" where
  "writeChildren V e pos [] st = Some (pos, st)"
| "writeChildren V e pos (child # rest) st =
     (case V child (writeRange e pos (getFullStart child) st) of
        None \<Rightarrow> None
      | Some st' \<Rightarrow> writeChildren V e (getEnd child) rest st')"

definition writeNodeFrom ::
  "(node \<Rightarrow> state \<Rightarrow> state option) \<Rightarrow> env \<Rightarrow> node \<Rightarrow> nat \<Rightarrow> nat \<Rightarrow> state \<Rightarrow> state option" where
  "writeNodeFrom V e n pos end st =
     (case writeChildren V e pos (forEachChild n) st of
        None \<Rightarrow> None
      | Some (pos', st') \<Rightarrow> Some (writeRange e pos' end st'))"

section \<open>DecoratorClassVisitor\<close>

subsection \<open>Which decorators are lowered\<close>

text \<open>The node whose leading comments are searched, or \<open>None\<close> where the loop continues.\<close>

definition commentNode :: "declSite \<Rightarrow> declSite option" where
  "commentNode d =
     (case (if siteKind d = VariableDeclaration then parent d else Some d) of
        None \<Rightarrow> None
      | Some c \<Rightarrow> if siteKind c = VariableDeclarationList then parent c else Some c)"

fun shouldLowerDecls :: "env \<Rightarrow> declSite list \<Rightarrow> bool" where
  "shouldLowerDecls e [] = False"
| "shouldLowerDecls e (d # ds) =
     (case commentNode d of
        None \<Rightarrow> shouldLowerDecls e ds
      | Some c \<Rightarrow>
          (case getLeadingCommentRanges e (getFullText c) of
             None \<Rightarrow> shouldLowerDecls e ds
           | Some ranges \<Rightarrow>
               if list_ex (\<lambda>(pos, end).
                    str_includes (substring (getFullText c) pos end) ''@Annotation'') ranges
               then True else shouldLowerDecls e ds))"

definition shouldLower :: "env \<Rightarrow> decorator \<Rightarrow> bool" where
  "shouldLower e d = shouldLowerDecls e (getDecoratorDeclarations e d)"

definition decoratorsToLower :: "env \<Rightarrow> node \<Rightarrow> decorator list" where
  "decoratorsToLower e n =
     (case decoratorsOf n of Some ds \<Rightarrow> filter (shouldLower e) ds | None \<Rightarrow> [])"

subsection \<open>Construction and gathering\<close>

definition newDecoratorClassVisitor :: "env \<Rightarrow> node \<Rightarrow> (node \<times> node list) list \<Rightarrow> visitor" where
  "newDecoratorClassVisitor e classDecl imported =
     \<lparr>decorators =
        (case decoratorsOf classDecl of
           None \<Rightarrow> None
         | Some ds \<Rightarrow> (let toLower = decoratorsToLower e classDecl
                       in if length toLower > 0 then Some toLower else None)),
      ctorParameters = None, propDecorators = None, importedNames = imported\<rparr>"

text \<open>
  The loop of \<open>gatherConstructor\<close> over the parameters, with its two accumulators: the
  entries pushed so far and \<open>hasDecoratedParam\<close>.
\<close>

fun gatherParameters ::
  "env \<Rightarrow> node list \<Rightarrow> ((symbol \<times> string) option \<times> decorator list option) option list \<Rightarrow> bool
   \<Rightarrow> ((symbol \<times> string) option \<times> decorator list option) option list \<times> bool" where
  "gatherParameters e [] acc hasDecoratedParam = (acc, hasDecoratedParam)"
| "gatherParameters e (param # rest) acc hasDecoratedParam =
     (let decos = (case decoratorsOf param of
                     None \<Rightarrow> None
                   | Some ds \<Rightarrow> Some (decoratorsToLower e param));
          hasDecoratedParam' = (case decos of
                                  None \<Rightarrow> hasDecoratedParam
                                | Some l \<Rightarrow> length l > 0);
          paramCtor = (case typeOf param of
                         None \<Rightarrow> None
                       | Some ty \<Rightarrow>
                           (case getSymbolAtType e ty of
                              None \<Rightarrow> None
                            | Some tsym \<Rightarrow>
                                if flags tsym AND SymbolFlags_Value e \<noteq> 0
                                then Some (tsym, symbolToString e ty tsym) else None))
      in gatherParameters e rest
           (acc @ [if paramCtor \<noteq> None \<or> decos \<noteq> None then Some (paramCtor, decos) else None])
           hasDecoratedParam')"

definition gatherConstructor :: "env \<Rightarrow> node \<Rightarrow> visitor \<Rightarrow> visitor" where
  "gatherConstructor e ctor v =
     (case gatherParameters e (parameters ctor) [] False of
        (params, hasDecoratedParam) \<Rightarrow>
          if decorators v \<noteq> None \<or> hasDecoratedParam then v\<lparr>ctorParameters := Some params\<rparr> else v)"

text \<open>\<open>Map.prototype.set\<close>: an existing key keeps its place, a new key goes last.\<close>

fun map_set :: "string \<Rightarrow> 'v \<Rightarrow> (string \<times> 'v) list \<Rightarrow> (string \<times> 'v) list" where
  "map_set k x [] = [(k, x)]"
| "map_set k x ((k', y) # m) = (if k' = k then (k, x) # m else (k', y) # map_set k x m)"

definition gatherMethodOrProperty :: "env \<Rightarrow> node \<Rightarrow> visitor \<Rightarrow> state \<Rightarrow> visitor \<times> state" where
  "gatherMethodOrProperty e method v st =
     (case decoratorsOf method of
        None \<Rightarrow> (v, st)
      | Some ds \<Rightarrow>
          (case nameOf method of
             Some (IdentifierNode sp name) \<Rightarrow>
               (let decos = decoratorsToLower e method
                in if length decos = 0 then (v, st)
                   else (v\<lparr>propDecorators :=
                             Some (map_set name decos
                                     (case propDecorators v of None \<Rightarrow> [] | Some m \<Rightarrow> m))\<rparr>, st))
           | _ \<Rightarrow> (v, error method ''cannot process decorators on strangely named method'' st)))"

fun beforeProcessNode :: "env \<Rightarrow> node \<Rightarrow> visitor \<Rightarrow> state \<Rightarrow> visitor \<times> state" where
  "beforeProcessNode e (DeclarationNode k sp ds ms n tps ps ty b) v st =
     (if k = Constructor then (gatherConstructor e (DeclarationNode k sp ds ms n tps ps ty b) v, st)
      else if k = PropertyDeclaration \<or> k = SetAccessor \<or> k = GetAccessor \<or> k = MethodDeclaration
      then gatherMethodOrProperty e (DeclarationNode k sp ds ms n tps ps ty b) v st
      else (v, st))"
| "beforeProcessNode e _ v st = (v, st)"

subsection \<open>Emitting the metadata\<close>

text \<open>
  The methods below run on the visitor the rewriter currently holds; these read its
  fields (\<open>undefined\<close> is \<open>None\<close>).
\<close>

definition this_decorators :: "state \<Rightarrow> decorator list option" where
  "this_decorators st = (case currentDecoratorConverter st of None \<Rightarrow> None | Some v \<Rightarrow> decorators v)"

definition this_ctorParameters ::
  "state \<Rightarrow> ((symbol \<times> string) option \<times> decorator list option) option list option" where
  "this_ctorParameters st =
     (case currentDecoratorConverter st of None \<Rightarrow> None | Some v \<Rightarrow> ctorParameters v)"

definition this_propDecorators :: "state \<Rightarrow> (string \<times> decorator list) list option" where
  "this_propDecorators st =
     (case currentDecoratorConverter st of None \<Rightarrow> None | Some v \<Rightarrow> propDecorators v)"

definition this_importedNames :: "state \<Rightarrow> (node \<times> node list) list" where
  "this_importedNames st =
     (case currentDecoratorConverter st of None \<Rightarrow> [] | Some v \<Rightarrow> importedNames v)"

fun findImportedName :: "(node \<times> node list) list \<Rightarrow> node \<Rightarrow> node option" where
  "findImportedName [] valueName = None"
| "findImportedName ((name, declarationNames) # rest) valueName =
     (if list_ex (\<lambda>d. d = valueName) declarationNames then Some name
      else findImportedName rest valueName)"

definition getValueIdentifierForType :: "env \<Rightarrow> state \<Rightarrow> symbol \<Rightarrow> node option" where
  "getValueIdentifierForType e st typeSymbol =
     (case valueDecl typeSymbol of
        None \<Rightarrow> None
      | Some vd \<Rightarrow>
          (case declName vd of
             Some (IdentifierNode sp t) \<Rightarrow>
               if declSourceFile vd = sourceFileName e then Some (IdentifierNode sp t)
               else findImportedName (this_importedNames st) (IdentifierNode sp t)
           | _ \<Rightarrow> None))"

fun writeArguments ::
  "(node \<Rightarrow> state \<Rightarrow> state option) \<Rightarrow> env \<Rightarrow> node list \<Rightarrow> state \<Rightarrow> state option" where
  "writeArguments V e [] st = Some st"
| "writeArguments V e (arg # rest) st =
     (case writeNodeFrom V e arg (getStart arg) (getEnd arg) st of
        None \<Rightarrow> None
      | Some st' \<Rightarrow> writeArguments V e rest (emit '', '' st'))"

definition emitDecorator ::
  "(node \<Rightarrow> state \<Rightarrow> state option) \<Rightarrow> env \<Rightarrow> decorator \<Rightarrow> state \<Rightarrow> state option" where
  "emitDecorator V e d st =
     (let st1 = emit ''{ type: '' st
      in case expression d of
           IdentifierNode sp t \<Rightarrow>
             (case V (IdentifierNode sp t) st1 of
                None \<Rightarrow> None
              | Some st2 \<Rightarrow> Some (emit '' }'' st2))
         | CallExpressionNode sp callee tas args \<Rightarrow>
             (case V callee st1 of
                None \<Rightarrow> None
              | Some st2 \<Rightarrow>
                  if length args \<noteq> 0
                  then (case writeArguments V e args (emit '', args: ['' st2) of
                          None \<Rightarrow> None
                        | Some st3 \<Rightarrow> Some (emit '' }'' (emit '']'' st3)))
                  else Some (emit '' }'' st2))
         | expr \<Rightarrow>
             Some (emit '' }'' (emit ''undefined''
                     (errorUnimplementedKind expr ''gathering metadata'' st1))))"

text \<open>The three loops over lowered decorators differ in the separator only.\<close>

fun emitDecorators ::
  "(node \<Rightarrow> state \<Rightarrow> state option) \<Rightarrow> env \<Rightarrow> string \<Rightarrow> decorator list \<Rightarrow> state \<Rightarrow> state option" where
  "emitDecorators V e sep [] st = Some st"
| "emitDecorators V e sep (d # rest) st =
     (case emitDecorator V e d st of
        None \<Rightarrow> None
      | Some st' \<Rightarrow> emitDecorators V e sep rest (emit sep st'))"

definition decoratorInvocations :: string where
  "decoratorInvocations = ''{type: Function, args?: any[]}[]''"

fun emitCtorParameters ::
  "(node \<Rightarrow> state \<Rightarrow> state option) \<Rightarrow> env
   \<Rightarrow> ((symbol \<times> string) option \<times> decorator list option) option list \<Rightarrow> state \<Rightarrow> state option" where
  "emitCtorParameters V e [] st = Some st"
| "emitCtorParameters V e (None # rest) st = emitCtorParameters V e rest (emit ''null,\<newline>'' st)"
| "emitCtorParameters V e (Some (ctor, decos) # rest) st =
     (let st1 = emit ''{type: '' st;
          st2 = (case ctor of
                   None \<Rightarrow> emit ''undefined'' st1
                 | Some (typeSymbol, typeStr) \<Rightarrow>
                     (case getValueIdentifierForType e st1 typeSymbol of
                        Some emitNode \<Rightarrow> writeRange e (getStart emitNode) (getEnd emitNode) st1
                      | None \<Rightarrow> emit typeStr st1));
          st3 = emit '', '' st2
      in case (case decos of
                 None \<Rightarrow> Some st3
               | Some ds \<Rightarrow>
                   (case emitDecorators V e '', '' ds (emit ''decorators: ['' st3) of
                      None \<Rightarrow> None
                    | Some st4 \<Rightarrow> Some (emit '']'' st4))) of
           None \<Rightarrow> None
         | Some st5 \<Rightarrow> emitCtorParameters V e rest (emit ''},\<newline>'' st5))"

text \<open>
  The loop over the keys of \<open>propDecorators\<close>; the decorators of a key are looked up when
  its turn comes, and iterating a missing entry does not return.
\<close>

fun emitPropDecorators ::
  "(node \<Rightarrow> state \<Rightarrow> state option) \<Rightarrow> env \<Rightarrow> string list \<Rightarrow> state \<Rightarrow> state option" where
  "emitPropDecorators V e [] st = Some st"
| "emitPropDecorators V e (name # rest) st =
     (let st1 = emit ([CHR 0x22] @ name @ [CHR 0x22] @ '': ['') st
      in case (case this_propDecorators st1 of None \<Rightarrow> None | Some m \<Rightarrow> map_of m name) of
           None \<Rightarrow> None
         | Some ds \<Rightarrow>
             (case emitDecorators V e '','' ds st1 of
                None \<Rightarrow> None
              | Some st2 \<Rightarrow> emitPropDecorators V e rest (emit ''],\<newline>'' st2)))"

definition emitStaticDecorators ::
  "(node \<Rightarrow> state \<Rightarrow> state option) \<Rightarrow> env \<Rightarrow> state \<Rightarrow> state option" where
  "emitStaticDecorators V e st =
     (case this_decorators st of
        None \<Rightarrow> Some st
      | Some ds \<Rightarrow>
          (case emitDecorators V e '',\<newline>'' ds
                  (emit (''static decorators: '' @ decoratorInvocations @ '' = [\<newline>'') st) of
             None \<Rightarrow> None
           | Some st' \<Rightarrow> Some (emit ''];\<newline>'' st')))"

definition emitStaticCtorParameters ::
  "(node \<Rightarrow> state \<Rightarrow> state option) \<Rightarrow> env \<Rightarrow> state \<Rightarrow> state option" where
  "emitStaticCtorParameters V e st =
     (if this_decorators st \<noteq> None \<or> this_ctorParameters st \<noteq> None
      then (case emitCtorParameters V e
                   (case this_ctorParameters st of None \<Rightarrow> [] | Some ps \<Rightarrow> ps)
                   (emit (''static ctorParameters: () => ({type: any, decorators?: '' @
                          decoratorInvocations @ ''}|null)[] = () => [\<newline>'')
                      (emit ''/** @nocollapse */\<newline>'' st)) of
              None \<Rightarrow> None
            | Some st' \<Rightarrow> Some (emit ''];\<newline>'' st'))
      else Some st)"

definition emitStaticPropDecorators ::
  "(node \<Rightarrow> state \<Rightarrow> state option) \<Rightarrow> env \<Rightarrow> state \<Rightarrow> state option" where
  "emitStaticPropDecorators V e st =
     (case this_propDecorators st of
        None \<Rightarrow> Some st
      | Some m \<Rightarrow>
          (case emitPropDecorators V e (map fst m)
                  (emit (''static propDecorators: {[key: string]: '' @ decoratorInvocations @
                         ''} = {\<newline>'') st) of
             None \<Rightarrow> None
           | Some st' \<Rightarrow> Some (emit ''};\<newline>'' st')))"

text \<open>The three blocks of \<open>emitMetadataAsStaticProperties\<close>, one after the other.\<close>

definition emitMetadataAsStaticProperties ::
  "(node \<Rightarrow> state \<Rightarrow> state option) \<Rightarrow> env \<Rightarrow> state \<Rightarrow> state option" where
  "emitMetadataAsStaticProperties V e st =
     (case emitStaticDecorators V e st of
        None \<Rightarrow> None
      | Some st1 \<Rightarrow>
          (case emitStaticCtorParameters V e st1 of
             None \<Rightarrow> None
           | Some st2 \<Rightarrow> emitStaticPropDecorators V e st2))"

definition maybeProcessDecorator :: "env \<Rightarrow> decorator \<Rightarrow> nat option \<Rightarrow> state \<Rightarrow> bool \<times> state" where
  "maybeProcessDecorator e d start_arg st =
     (if shouldLower e d
      then (let from = (case start_arg of
                          None \<Rightarrow> fullStart (decoratorSpan d)
                        | Some s \<Rightarrow> if s = 0 then fullStart (decoratorSpan d) else s)
            in (True, writeRange e from (start (decoratorSpan d)) st))
      else (False, st))"

section \<open>DecoratorRewriter\<close>

definition classTerminator :: "env \<Rightarrow> node \<Rightarrow> bool" where
  "classTerminator e classDecl =
     (0 < getEnd classDecl \<and> getEnd classDecl - 1 < length (fileText e) \<and>
      fileText e ! (getEnd classDecl - 1) = CHR ''}'')"

definition visitClassContentIncludingDecorators ::
  "(node \<Rightarrow> state \<Rightarrow> state option) \<Rightarrow> env \<Rightarrow> node \<Rightarrow> bool \<Rightarrow> state \<Rightarrow> state option" where
  "visitClassContentIncludingDecorators V e classDecl decoratorVisitor st =
     (if \<not> classTerminator e classDecl
      then Some (error classDecl ''unexpected class terminator'' st)
      else (case writeNodeFrom V e classDecl (getStart classDecl) (getEnd classDecl - 1) st of
              None \<Rightarrow> None
            | Some st1 \<Rightarrow>
                (case (if decoratorVisitor then emitMetadataAsStaticProperties V e st1
                       else Some st1) of
                   None \<Rightarrow> None
                 | Some st2 \<Rightarrow>
                     Some (writeRange e (getEnd classDecl - 1) (getEnd classDecl) st2))))"

definition runBeforeProcessNode :: "env \<Rightarrow> node \<Rightarrow> state \<Rightarrow> state" where
  "runBeforeProcessNode e n st =
     (case currentDecoratorConverter st of
        None \<Rightarrow> st
      | Some v \<Rightarrow> (case beforeProcessNode e n v st of
                    (v', st') \<Rightarrow> st'\<lparr>currentDecoratorConverter := Some v'\<rparr>))"

fun isClassDeclaration :: "node \<Rightarrow> bool" where
  "isClassDeclaration (DeclarationNode k sp ds ms n tps ps ty b) = (k = ClassDeclaration)"
| "isClassDeclaration _ = False"

definition processClassDeclaration ::
  "(node \<Rightarrow> state \<Rightarrow> state option) \<Rightarrow> env \<Rightarrow> node \<Rightarrow> state \<Rightarrow> state option" where
  "processClassDeclaration V e n st =
     (let oldDecoratorConverter = currentDecoratorConverter st;
          st1 = st\<lparr>currentDecoratorConverter := Some (newDecoratorClassVisitor e n [])\<rparr>;
          st2 = writeRange e (getFullStart n) (getStart n) st1
      in case visitClassContentIncludingDecorators V e n True st2 of
           None \<Rightarrow> None
         | Some st3 \<Rightarrow> Some (st3\<lparr>currentDecoratorConverter := oldDecoratorConverter\<rparr>))"

definition maybeProcess ::
  "(node \<Rightarrow> state \<Rightarrow> state option) \<Rightarrow> env \<Rightarrow> node \<Rightarrow> state \<Rightarrow> (bool \<times> state) option" where
  "maybeProcess V e n st =
     (let st0 = runBeforeProcessNode e n st
      in case n of
           DecoratorNode d \<Rightarrow>
             (case currentDecoratorConverter st0 of
                None \<Rightarrow> Some (False, st0)
              | Some v \<Rightarrow> Some (maybeProcessDecorator e d None st0))
         | _ \<Rightarrow>
             if isClassDeclaration n
             then (case processClassDeclaration V e n st0 of
                     None \<Rightarrow> None
                   | Some st1 \<Rightarrow> Some (True, st1))
             else Some (False, st0))"

text \<open>
  \<open>Rewriter.visit\<close>, with the depth of the traversal bounded by \<open>fuel\<close>: a visit of depth
  \<open>Suc k\<close> visits children (and decorator expressions) at depth \<open>k\<close>.
\<close>

definition visitWith ::
  "(node \<Rightarrow> state \<Rightarrow> state option) \<Rightarrow> env \<Rightarrow> node \<Rightarrow> state \<Rightarrow> state option" where
  "visitWith V e n st =
     (case maybeProcess V e n st of
        None \<Rightarrow> None
      | Some (handled, st') \<Rightarrow>
          if handled then Some st' else writeNodeFrom V e n (getFullStart n) (getEnd n) st')"

primrec visit :: "env \<Rightarrow> nat \<Rightarrow> node \<Rightarrow> state \<Rightarrow> state option" where
  "visit e 0 n st = None"
| "visit e (Suc fuel) n st = visitWith (visit e fuel) e n st"

definition initialState :: state where
  "initialState = \<lparr>outputs = [], diagnostics = [], currentDecoratorConverter = None\<rparr>"

definition process :: "env \<Rightarrow> nat \<Rightarrow> node \<Rightarrow> (string \<times> diagnostic list) option" where
  "process e fuel file = map_option getOutput (visit e fuel file initialState)"

section \<open>Notions for the properties of the downleveler\<close>

text \<open>A tree fits the depth \<open>k\<close> when a traversal of depth \<open>k\<close> reaches all of it.\<close>

primrec fits :: "nat \<Rightarrow> node \<Rightarrow> bool" where
  "fits 0 n = False"
| "fits (Suc k) n = list_all (fits k) (forEachChild n)"

text \<open>\<open>within n m\<close>: the node \<open>m\<close> is \<open>n\<close> or one of its descendants.\<close>

inductive within :: "node \<Rightarrow> node \<Rightarrow> bool" where
  within_refl: "within n n"
| within_child: "c \<in> set (forEachChild n) \<Longrightarrow> within c m \<Longrightarrow> within n m"

definition decoratorsWithin :: "node \<Rightarrow> decorator set" where
  "decoratorsWithin n = {d. within n (DecoratorNode d)}"

text \<open>The decorators that occur strictly inside a node.\<close>

definition decoratorsInside :: "node \<Rightarrow> decorator set" where
  "decoratorsInside n = (\<Union>c \<in> set (forEachChild n). decoratorsWithin c)"

text \<open>The decorators a visitor holds, and whether it holds any metadata.\<close>

definition ctorDecorators ::
  "((symbol \<times> string) option \<times> decorator list option) option list \<Rightarrow> decorator set" where
  "ctorDecorators ps = {d. \<exists>c ds. Some (c, Some ds) \<in> set ps \<and> d \<in> set ds}"

definition storedV :: "visitor \<Rightarrow> decorator set" where
  "storedV v =
     (case decorators v of None \<Rightarrow> {} | Some ds \<Rightarrow> set ds) \<union>
     (case ctorParameters v of None \<Rightarrow> {} | Some ps \<Rightarrow> ctorDecorators ps) \<union>
     (case propDecorators v of None \<Rightarrow> {} | Some m \<Rightarrow> {d. \<exists>k ds. (k, ds) \<in> set m \<and> d \<in> set ds})"

definition stored :: "state \<Rightarrow> decorator set" where
  "stored st = (case currentDecoratorConverter st of None \<Rightarrow> {} | Some v \<Rightarrow> storedV v)"

definition hasMetadata :: "state \<Rightarrow> bool" where
  "hasMetadata st =
     (this_decorators st \<noteq> None \<or> this_ctorParameters st \<noteq> None \<or> this_propDecorators st \<noteq> None)"

definition propHas :: "state \<Rightarrow> string \<Rightarrow> bool" where
  "propHas st name =
     (case this_propDecorators st of None \<Rightarrow> False | Some m \<Rightarrow> map_of m name \<noteq> None)"

text \<open>
  How a traversal that gathers from the decorators in \<open>A\<close> may change the state: it only
  appends output and diagnostics, keeps the visitor's class decorators, never forgets
  constructor or property metadata, stores only decorators of \<open>A\<close>, and comes to hold
  metadata only if a decorator of \<open>A\<close> is to be lowered.
\<close>

definition Rel :: "env \<Rightarrow> decorator set \<Rightarrow> state \<Rightarrow> state \<Rightarrow> bool" where
  "Rel e A st st' =
     ((\<exists>xs. outputs st' = outputs st @ xs) \<and>
      (\<exists>ds. diagnostics st' = diagnostics st @ ds) \<and>
      ((currentDecoratorConverter st' = None) = (currentDecoratorConverter st = None)) \<and>
      this_decorators st' = this_decorators st \<and>
      (this_ctorParameters st \<noteq> None \<longrightarrow> this_ctorParameters st' \<noteq> None) \<and>
      (\<forall>name. propHas st name \<longrightarrow> propHas st' name) \<and>
      stored st' \<subseteq> stored st \<union> A \<and>
      (hasMetadata st' \<longrightarrow> hasMetadata st \<or> (\<exists>d \<in> A. shouldLower e d)))"

text \<open>A callback that behaves like \<open>visit\<close> on every tree that fits the depth \<open>k\<close>.\<close>

definition okV :: "env \<Rightarrow> nat \<Rightarrow> (node \<Rightarrow> state \<Rightarrow> state option) \<Rightarrow> bool" where
  "okV e k V = (\<forall>n st. fits k n \<longrightarrow> (\<exists>st'. V n st = Some st' \<and> Rel e (decoratorsWithin n) st st'))"

text \<open>The nodes a callback of depth \<open>k\<close> may be asked to visit while gathering from \<open>A\<close>.\<close>

definition visitable :: "nat \<Rightarrow> decorator set \<Rightarrow> node \<Rightarrow> bool" where
  "visitable k A n = (fits k n \<and> decoratorsWithin n \<subseteq> A)"

text \<open>A step that leaves the visitor alone and only appends output and diagnostics.\<close>

definition sameVisitor :: "state \<Rightarrow> state \<Rightarrow> bool" where
  "sameVisitor st st' =
     (currentDecoratorConverter st' = currentDecoratorConverter st \<and>
      (\<exists>xs. outputs st' = outputs st @ xs) \<and> (\<exists>ds. diagnostics st' = diagnostics st @ ds))"

text \<open>The same notions on a visitor rather than on the state that holds it.\<close>

definition hasMetadataV :: "visitor \<Rightarrow> bool" where
  "hasMetadataV v = (decorators v \<noteq> None \<or> ctorParameters v \<noteq> None \<or> propDecorators v \<noteq> None)"

definition propHasV :: "visitor \<Rightarrow> string \<Rightarrow> bool" where
  "propHasV v name = (case propDecorators v of None \<Rightarrow> False | Some m \<Rightarrow> map_of m name \<noteq> None)"

definition RelV :: "env \<Rightarrow> decorator set \<Rightarrow> visitor \<Rightarrow> visitor \<Rightarrow> bool" where
  "RelV e A v v' =
     (decorators v' = decorators v \<and>
      (ctorParameters v \<noteq> None \<longrightarrow> ctorParameters v' \<noteq> None) \<and>
      (\<forall>name. propHasV v name \<longrightarrow> propHasV v' name) \<and>
      storedV v' \<subseteq> storedV v \<union> A \<and>
      (hasMetadataV v' \<longrightarrow> hasMetadataV v \<or> (\<exists>d \<in> A. shouldLower e d)))"

text \<open>
  What the traversal writes for one argument of a decorator call, and what \<open>emitDecorator\<close>
  writes for one decorator, from some state.
\<close>

definition argumentOut ::
  "(node \<Rightarrow> state \<Rightarrow> state option) \<Rightarrow> env \<Rightarrow> node \<Rightarrow> string list \<Rightarrow> bool" where
  "argumentOut V e a out =
     (\<exists>s s'. writeNodeFrom V e a (getStart a) (getEnd a) s = Some s' \<and>
              outputs s' = outputs s @ out)"

definition entryOf ::
  "(node \<Rightarrow> state \<Rightarrow> state option) \<Rightarrow> env \<Rightarrow> decorator \<Rightarrow> string list \<Rightarrow> bool" where
  "entryOf V e d entry =
     (\<exists>s s'. emitDecorator V e d s = Some s' \<and> outputs s' = outputs s @ entry)"

text \<open>Every decorator of \<open>A\<close> has an expression that a callback of depth \<open>k\<close> can visit.\<close>

definition gatherable :: "nat \<Rightarrow> decorator set \<Rightarrow> bool" where
  "gatherable k A = (\<forall>d \<in> A. visitable k A (expression d))"

text \<open>The line that opens the \<open>static decorators\<close> field.\<close>

definition staticDecoratorsHeader :: string where
  "staticDecoratorsHeader = ''static decorators: '' @ decoratorInvocations @ '' = [\<newline>''"

text \<open>
  The state in which the content of a class is visited: a fresh visitor for the class, and
  the leading trivia of the class written.
\<close>

definition classEntry :: "env \<Rightarrow> node \<Rightarrow> state \<Rightarrow> state" where
  "classEntry e n st =
     writeRange e (getFullStart n) (getStart n)
       (st\<lparr>currentDecoratorConverter := Some (newDecoratorClassVisitor e n [])\<rparr>)"

text \<open>The members of a class declaration.\<close>

fun membersOf :: "node \<Rightarrow> node list" where
  "membersOf (DeclarationNode k s ds ms n tps ps ty b) = b"
| "membersOf _ = []"

text \<open>
  The name under which \<open>gatherMethodOrProperty\<close> files the decorators of a member: the
  member is a property, accessor or method named by a plain identifier and has a decorator
  to lower.
\<close>

fun lowerableMember :: "env \<Rightarrow> node \<Rightarrow> string option" where
  "lowerableMember e (DeclarationNode k s ds ms n tps ps ty b) =
     (case n of
        Some (IdentifierNode s' name) \<Rightarrow>
          if (k = PropertyDeclaration \<or> k = SetAccessor \<or> k = GetAccessor \<or> k = MethodDeclaration)
             \<and> decoratorsToLower e (DeclarationNode k s ds ms n tps ps ty b) \<noteq> []
          then Some name else None
      | _ \<Rightarrow> None)"
| "lowerableMember e _ = None"

text \<open>
  A node from which a visitor gathers metadata when it meets it: a constructor with a
  parameter that has a decorator to lower, or a member that \<open>gatherMethodOrProperty\<close>
  files.
\<close>

fun gatherSite :: "env \<Rightarrow> node \<Rightarrow> bool" where
  "gatherSite e (DeclarationNode k s ds ms n tps ps ty b) =
     (if k = Constructor then list_ex (\<lambda>p. decoratorsToLower e p \<noteq> []) ps
      else lowerableMember e (DeclarationNode k s ds ms n tps ps ty b) \<noteq> None)"
| "gatherSite e _ = False"

text \<open>
  A callback after which the visitor holds metadata only if it did before or the visited
  tree has a node to gather from.
\<close>

definition okJ :: "env \<Rightarrow> nat \<Rightarrow> (node \<Rightarrow> state \<Rightarrow> state option) \<Rightarrow> bool" where
  "okJ e k V =
     (\<forall>n st st'. fits k n \<longrightarrow> V n st = Some st' \<longrightarrow> hasMetadata st' \<longrightarrow>
        hasMetadata st \<or> (\<exists>m. within n m \<and> gatherSite e m))"

section \<open>The command-line driver\<close>

text \<open>
  JavaScript truthiness of an optional flag and of an optional string: \<open>undefined\<close>,
  \<open>false\<close> and the empty string are falsy.
\<close>

definition truthy :: "bool option \<Rightarrow> bool" where
  "truthy b = (b = Some True)"

definition truthyString :: "string option \<Rightarrow> bool" where
  "truthyString s = (case s of None \<Rightarrow> False | Some t \<Rightarrow> t \<noteq> [])"

record settings =
  externsPath :: "string option"
  isTyped :: "bool option"
  isTypedSignatures :: "bool option"
  verbose :: "bool option"
  devMode :: "bool option"
  googModuleRootDir :: "string option"
  googModuleProjectName :: "string option"

record tsickleOptions =
  googmodule :: bool
  es5Mode :: bool
  untyped :: bool
  untypedFunctionBodies :: "bool option"

datatype Pass = NONE | DECORATOR_DOWNLEVEL | CLOSURIZE

text \<open>
  \<open>getDefaultClosureJSOptions\<close>: the compiler-host options, the overlay files and the
  passes. (Its \<open>tsickleHost\<close> maps paths to module names through helpers that are not among
  the sources; only \<open>shouldSkipTsickleProcessing\<close> is kept.)
\<close>

record closureJSOptions =
  tsickleCompilerHostOptions :: tsickleOptions
  shouldSkipTsickleProcessing :: "string \<Rightarrow> bool"
  files :: "(string \<times> string) list"
  tsicklePasses :: "Pass list"

definition getDefaultClosureJSOptions :: "string list \<Rightarrow> settings \<Rightarrow> closureJSOptions" where
  "getDefaultClosureJSOptions fileNames s =
     \<lparr>tsickleCompilerHostOptions =
        \<lparr>googmodule = True, es5Mode = False, untyped = (\<not> truthy (isTyped s)),
         untypedFunctionBodies = isTypedSignatures s\<rparr>,
      shouldSkipTsickleProcessing = (\<lambda>fileName. fileName \<notin> set fileNames),
      files = [],
      tsicklePasses = [CLOSURIZE]\<rparr>"

subsection \<open>The source-replacing compiler host\<close>

text \<open>
  \<open>getSourceFile\<close> of \<open>createSourceReplacingCompilerHost\<close>. The collaborators are
  \<open>ts.sys.resolvePath\<close>, \<open>ts.createSourceFile\<close> and the delegate's \<open>getSourceFile\<close>;
  \<open>substituteSource\<close> is the overlay map.
\<close>

definition getSourceFile ::
  "(string \<Rightarrow> string) \<Rightarrow> (string \<Rightarrow> string \<Rightarrow> 'lang \<Rightarrow> 'sf) \<Rightarrow> (string \<Rightarrow> 'lang \<Rightarrow> 'err \<Rightarrow> 'sf)
   \<Rightarrow> (string \<rightharpoonup> string) \<Rightarrow> string \<Rightarrow> 'lang \<Rightarrow> 'err \<Rightarrow> 'sf" where
  "getSourceFile resolvePath createSourceFile delegate_getSourceFile substituteSource
       fileName languageVersion onError =
     (let path = resolvePath fileName;
          sourceText = substituteSource path
      in if truthyString sourceText
         then createSourceFile path (case sourceText of Some t \<Rightarrow> t | None \<Rightarrow> []) languageVersion
         else delegate_getSourceFile path languageVersion onError)"

subsection \<open>Dev mode\<close>

text \<open>
  The file system and the tools dev mode calls: \<open>fs.statSync(p).mtime.getTime()\<close> and
  \<open>fs.readFileSync\<close> (which throw for a missing file, here \<open>None\<close>), the path functions,
  \<open>ts.transpileModule\<close> (output text and diagnostics) and \<open>processES5\<close>.
\<close>

record 'd devTools =
  mtime :: "string \<Rightarrow> int option"
  readFileSync :: "string \<Rightarrow> string option"
  resolvePath :: "string \<Rightarrow> string"
  relative :: "string \<Rightarrow> string \<Rightarrow> string"
  cwd :: string
  transpileModule :: "string \<Rightarrow> string \<Rightarrow> string \<times> 'd list"
  processES5 :: "string \<Rightarrow> string \<Rightarrow> string"

datatype exn = ENOENT string

text \<open>\<open>s.replace(/\.ts$/, '.js')\<close>\<close>

definition replace_ts_js :: "string \<Rightarrow> string" where
  "replace_ts_js s =
     (if substr_last s 3 = ''.ts'' \<and> 3 \<le> length s then take (length s - 3) s @ ''.js'' else s)"

definition rootDirOf :: "'d devTools \<Rightarrow> settings \<Rightarrow> string" where
  "rootDirOf t s =
     resolvePath t (if truthyString (googModuleRootDir s)
                    then (case googModuleRootDir s of Some r \<Rightarrow> r | None \<Rightarrow> []) else cwd t)"

definition tsNameToJsName :: "'d devTools \<Rightarrow> string \<Rightarrow> string option \<Rightarrow> settings \<Rightarrow> string" where
  "tsNameToJsName t tsName outDir s =
     (if truthyString outDir
      then (let rootDir = rootDirOf t s;
                absPath = resolvePath t tsName;
                relativePath = relative t rootDir absPath
            in (case outDir of Some d \<Rightarrow> d | None \<Rightarrow> []) @ ''/'' @ replace_ts_js relativePath)
      else replace_ts_js tsName)"

text \<open>One round of the \<open>forEach\<close> of \<open>toClosureJSDevMode\<close>, on the map and the diagnostics so far.\<close>

definition devModeFile ::
  "'d devTools \<Rightarrow> string option \<Rightarrow> settings \<Rightarrow> string
   \<Rightarrow> (string \<times> string) list \<times> 'd list \<Rightarrow> exn + (string \<times> string) list \<times> 'd list" where
  "devModeFile t outDir s tsName acc =
     (case acc of (jsFiles, allDiagnostics) \<Rightarrow>
        if substr_last tsName 5 \<noteq> ''.d.ts''
        then (let jsName = tsNameToJsName t tsName outDir s;
                  jsTime = (case mtime t jsName of None \<Rightarrow> 0 | Some m \<Rightarrow> m)
              in case mtime t tsName of
                   None \<Rightarrow> Inl (ENOENT tsName)
                 | Some tsTime \<Rightarrow>
                     if tsTime > jsTime
                     then (case readFileSync t tsName of
                             None \<Rightarrow> Inl (ENOENT tsName)
                           | Some code \<Rightarrow>
                               (case transpileModule t code tsName of
                                  (outputText, ds) \<Rightarrow>
                                    (let absPath = resolvePath t jsName;
                                         relativePath = relative t (rootDirOf t s) absPath;
                                         out = processES5 t relativePath outputText
                                     in Inr (map_set jsName out jsFiles, allDiagnostics @ ds))))
                     else Inr (jsFiles, allDiagnostics))
        else Inr (jsFiles, allDiagnostics))"

fun devModeFiles ::
  "'d devTools \<Rightarrow> string option \<Rightarrow> settings \<Rightarrow> string list
   \<Rightarrow> (string \<times> string) list \<times> 'd list \<Rightarrow> exn + (string \<times> string) list \<times> 'd list" where
  "devModeFiles t outDir s [] acc = Inr acc"
| "devModeFiles t outDir s (tsName # rest) acc =
     (case devModeFile t outDir s tsName acc of
        Inl x \<Rightarrow> Inl x
      | Inr acc' \<Rightarrow> devModeFiles t outDir s rest acc')"

text \<open>
  The result is the closure (\<open>jsFiles\<close> and \<open>externs\<close>) together with \<open>allDiagnostics\<close> as
  the call leaves it.
\<close>

definition toClosureJSDevMode ::
  "'d devTools \<Rightarrow> string option \<Rightarrow> string list \<Rightarrow> settings \<Rightarrow> 'd list
   \<Rightarrow> exn + ((string \<times> string) list \<times> string) option \<times> 'd list" where
  "toClosureJSDevMode t outDir fileNames s allDiagnostics =
     (case devModeFiles t outDir s fileNames ([], allDiagnostics) of
        Inl x \<Rightarrow> Inl x
      | Inr (jsFiles, ds) \<Rightarrow> Inr (Some (jsFiles, []), ds))"

subsection \<open>The pipeline coordinator\<close>

text \<open>
  What \<open>toClosureJS\<close> asks of the host compiler and of \<open>TsickleCompilerHost\<close>: creating a
  program (which reads every file through the host and so may change the host),
  \<open>ts.getPreEmitDiagnostics\<close>, \<open>reconfigureForRun\<close>, \<open>program.emit\<close> (its diagnostics, the files
  the output-retaining host has captured, and the host afterwards) and
  \<open>getGeneratedExterns\<close>.
\<close>

record ('prog, 'tch, 'd) compilerApi =
  newTsickleCompilerHost :: "closureJSOptions \<Rightarrow> 'tch"
  createProgram :: "string list \<Rightarrow> 'tch \<Rightarrow> 'prog \<times> 'tch"
  getPreEmitDiagnostics :: "'prog \<Rightarrow> 'd list"
  reconfigureForRun :: "'prog \<Rightarrow> Pass \<Rightarrow> 'tch \<Rightarrow> 'tch"
  emitProgram :: "'prog \<Rightarrow> 'tch \<Rightarrow> 'd list \<times> (string \<times> string) list \<times> 'tch"
  getGeneratedExterns :: "'tch \<Rightarrow> string"

definition runPass ::
  "('prog, 'tch, 'd) compilerApi \<Rightarrow> closureJSOptions \<Rightarrow> string list \<Rightarrow> Pass
   \<Rightarrow> 'prog \<times> 'tch \<Rightarrow> 'prog \<times> 'tch" where
  "runPass api opts fileNames pass pt =
     (case pt of (program, tch) \<Rightarrow>
        if pass \<in> set (tsicklePasses opts)
        then createProgram api fileNames (reconfigureForRun api program pass tch)
        else (program, tch))"

definition toClosureJS ::
  "('prog, 'tch, 'd) compilerApi \<Rightarrow> closureJSOptions \<Rightarrow> string list \<Rightarrow> 'd list
   \<Rightarrow> ((string \<times> string) list \<times> string) option \<times> 'd list" where
  "toClosureJS api opts fileNames allDiagnostics =
     (case createProgram api fileNames (newTsickleCompilerHost api opts) of
        (program, tch) \<Rightarrow>
          if length (getPreEmitDiagnostics api program) > 0
          then (None, allDiagnostics @ getPreEmitDiagnostics api program)
          else (case runPass api opts fileNames CLOSURIZE
                       (runPass api opts fileNames DECORATOR_DOWNLEVEL (program, tch)) of
                  (program', tch') \<Rightarrow>
                    (case emitProgram api program' tch' of
                       (ds, jsFiles, tch'') \<Rightarrow>
                         if length ds > 0 then (None, allDiagnostics @ ds)
                         else (Some (jsFiles, getGeneratedExterns api tch''), allDiagnostics))))"

text \<open>
  The earliest driver among the sources runs the annotator itself, file by file, before
  it re-parses and emits. Its collaborators: \<open>ts.createProgram\<close> (without or with an
  overlay of rewritten sources), \<open>ts.getPreEmitDiagnostics\<close>, \<open>tsickle.annotate\<close> (output,
  externs and diagnostics of one file), \<open>program.emit\<close> with a retaining \<open>writeFile\<close>,
  \<open>path.extname\<close> and \<open>tsickle.convertCommonJsToGoogModule\<close>. Its result is either the
  \<open>errors\<close> or \<open>jsFiles\<close> with the \<open>externs\<close>.
\<close>

record ('prog, 'd) earlyApi =
  createProgram_early :: "string list \<Rightarrow> (string \<times> string) list option \<Rightarrow> 'prog"
  getPreEmitDiagnostics_early :: "'prog \<Rightarrow> 'd list"
  annotate :: "'prog \<Rightarrow> string \<Rightarrow> string \<times> string \<times> 'd list"
  emit_early :: "'prog \<Rightarrow> 'd list \<times> (string \<times> string) list"
  resolvePath_early :: "string \<Rightarrow> string"
  extname :: "string \<Rightarrow> string"
  convertCommonJsToGoogModule :: "string \<Rightarrow> string \<Rightarrow> string"

fun annotateFiles ::
  "('prog, 'd) earlyApi \<Rightarrow> 'prog \<Rightarrow> string list \<Rightarrow> (string \<times> string) list \<times> string
   \<Rightarrow> 'd list + (string \<times> string) list \<times> string" where
  "annotateFiles api program [] acc = Inr acc"
| "annotateFiles api program (f # rest) acc =
     (case acc of (tsickleOutput, tsickleExterns) \<Rightarrow>
        (case annotate api program f of
           (out, externs, ds) \<Rightarrow>
             if length ds > 0 then Inl ds
             else annotateFiles api program rest
                    (map_set (resolvePath_early api f) out tsickleOutput,
                     if externs \<noteq> [] then tsickleExterns @ externs else tsickleExterns)))"

definition toClosureJS_early ::
  "('prog, 'd) earlyApi \<Rightarrow> string list \<Rightarrow> 'd list + (string \<times> string) list \<times> string" where
  "toClosureJS_early api fileNames =
     (let program = createProgram_early api fileNames None
      in if length (getPreEmitDiagnostics_early api program) > 0
         then Inl (getPreEmitDiagnostics_early api program)
         else (case annotateFiles api program fileNames ([], []) of
                 Inl ds \<Rightarrow> Inl ds
               | Inr (tsickleOutput, tsickleExterns) \<Rightarrow>
                   (let program' = createProgram_early api fileNames (Some tsickleOutput)
                    in if length (getPreEmitDiagnostics_early api program') > 0
                       then Inl (getPreEmitDiagnostics_early api program')
                       else (case emit_early api program' of
                               (ds, jsFiles) \<Rightarrow>
                                 if length ds > 0 then Inl ds
                                 else Inr (map (\<lambda>(f, src).
                                              if extname api f \<noteq> ''.map''
                                              then (f, convertCommonJsToGoogModule api f src)
                                              else (f, src)) jsFiles,
                                           tsickleExterns)))))"

text \<open>A file reports when the annotator returns diagnostics for it.\<close>

definition reports :: "('prog, 'd) earlyApi \<Rightarrow> 'prog \<Rightarrow> string \<Rightarrow> bool" where
  "reports api program f = (snd (snd (annotate api program f)) \<noteq> [])"

subsection \<open>Writing the result\<close>

definition suppressAll :: string where
  "suppressAll = ''/** @fileoverview @suppress {accessControls,ambiguousFunctionDecl,checkDebuggerStatement,checkRegExp,checkTypes,checkVars,closureDepMethodUsageChecks,constantProperty,const,deprecated,duplicate,es5Strict,externsValidation,extraRequire,fileoverviewTags,globalThis,invalidCasts,misplacedTypeAnnotation,missingProperties,missingProvide,missingRequire,missingReturn,newCheckTypes,nonStandardJsDocs,reportUnknownTypes,strictModuleDepCheck,suspiciousCode,undefinedNames,undefinedVars,unknownDefines,uselessCode,visibility} */\<newline>''"

datatype fsOp = MkdirpSync string | WriteFileSync string string

text \<open>
  The tail of \<open>main\<close>, from the closure on: the exit code and the file-system operations
  in the order they are made. \<open>dirname\<close> is \<open>path.dirname\<close>.
\<close>

definition writeJsFile :: "(string \<Rightarrow> string) \<Rightarrow> settings \<Rightarrow> string \<times> string \<Rightarrow> fsOp list" where
  "writeJsFile dirname s entry =
     (case entry of (fileName, src) \<Rightarrow>
        [MkdirpSync (dirname fileName),
         WriteFileSync fileName
           (if \<not> truthy (isTyped s) \<or> truthy (isTypedSignatures s) then suppressAll @ src else src)])"

definition main_write ::
  "(string \<Rightarrow> string) \<Rightarrow> settings \<Rightarrow> ((string \<times> string) list \<times> string) option \<Rightarrow> nat \<times> fsOp list" where
  "main_write dirname s closure =
     (case closure of
        None \<Rightarrow> (1, [])
      | Some (jsFiles, externs) \<Rightarrow>
          (0, concat (map (writeJsFile dirname s) jsFiles) @
              (if truthyString (externsPath s)
               then (case externsPath s of
                       Some p \<Rightarrow> [MkdirpSync (dirname p), WriteFileSync p externs]
                     | None \<Rightarrow> [])
               else [])))"

text \<open>
  The conditions of \<open>toClosureJSDevMode\<close> on one input file, and what it stores for it:
  the file is a declaration file; its time stamp is newer than that of its JavaScript
  output (\<open>0\<close> when there is none); the converted transpilation.
\<close>

definition isDeclarationFile :: "string \<Rightarrow> bool" where
  "isDeclarationFile tsName = (substr_last tsName 5 = ''.d.ts'')"

definition outdated :: "'d devTools \<Rightarrow> string option \<Rightarrow> settings \<Rightarrow> string \<Rightarrow> bool" where
  "outdated t outDir s tsName =
     (case mtime t tsName of
        None \<Rightarrow> False
      | Some tsTime \<Rightarrow>
          tsTime > (case mtime t (tsNameToJsName t tsName outDir s) of None \<Rightarrow> 0 | Some m \<Rightarrow> m))"

definition devModeOutput :: "'d devTools \<Rightarrow> string option \<Rightarrow> settings \<Rightarrow> string \<Rightarrow> string" where
  "devModeOutput t outDir s tsName =
     processES5 t
       (relative t (rootDirOf t s) (resolvePath t (tsNameToJsName t tsName outDir s)))
       (fst (transpileModule t
               (case readFileSync t tsName of Some code \<Rightarrow> code | None \<Rightarrow> []) tsName))"

section \<open>The type translator on recursive aliases\<close>

text \<open>
  Modelled from the spec: the type translator (section 4.2) and the typedef the annotator
  emits for a type alias (section 8, scenarios 1 and 2); neither is among the sources,
  only the expected output \<open>typedef.tsickle.ts\<close> is. The translator has the two modes of
  section 4.2 and follows its table. As the type checker resolves an alias to the type it
  stands for, a reference to an alias is translated by translating the alias's definition,
  with the alias's symbol in the \<open>currently-translating\<close> set; a reference to a symbol of
  that set is \<open>?\<close>. Names are written as they are declared (the value identifier in the
  file); a name that is not declared degrades to \<open>?\<close>.
\<close>

datatype tsType =
    TNumber | TString | TBoolean | TNull | TUndefined | TAny | TUnknown | TVoid
  | TUnion "tsType list"
  | TArray tsType
  | TObject "(string \<times> bool \<times> tsType) list"
  | TFunction "tsType option" "(bool \<times> tsType) list" tsType
  | TReference string "tsType list"

text \<open>
  What a name in a type reference is declared as: a type alias with its definition, a class
  or interface (and whether it is non-null by declaration), a generic parameter, or an enum
  member type with the fully qualified name of its enum. A name that has no entry is not
  visible as a value in the emitted JavaScript.
\<close>

datatype declared = Alias tsType | ClassOrInterface bool | TypeParameter | EnumMember string

fun intercalate :: "string \<Rightarrow> string list \<Rightarrow> string" where
  "intercalate sep [] = []"
| "intercalate sep [x] = x"
| "intercalate sep (x # y # rest) = x @ sep @ intercalate sep (y # rest)"

definition optionalType :: "bool \<Rightarrow> string \<Rightarrow> string" where
  "optionalType opt t = (if opt then ''('' @ t @ ''|undefined)'' else t)"

definition typeArguments :: "string list \<Rightarrow> string" where
  "typeArguments ts = (if ts = [] then [] else ''<'' @ intercalate '','' ts @ ''>'')"

definition thisType :: "string option \<Rightarrow> string list" where
  "thisType t = (case t of None \<Rightarrow> [] | Some c \<Rightarrow> [''this: '' @ c])"

definition pending :: "(string \<times> declared) list \<Rightarrow> string list \<Rightarrow> nat" where
  "pending syms translating = card (fst ` set syms - set translating)"

text \<open>
  Typed mode. \<open>translating\<close> is the currently-translating set, keyed by symbol: a reference
  to an alias enters the alias's definition with the alias added to the set, and on
  re-entry the reference is \<open>?\<close>.
\<close>

function translateTyped :: "(string \<times> declared) list \<Rightarrow> string list \<Rightarrow> tsType \<Rightarrow> string" where
  "translateTyped syms translating TNumber = ''number''"
| "translateTyped syms translating TString = ''string''"
| "translateTyped syms translating TBoolean = ''boolean''"
| "translateTyped syms translating TNull = ''null''"
| "translateTyped syms translating TUndefined = ''undefined''"
| "translateTyped syms translating TAny = ''?''"
| "translateTyped syms translating TUnknown = ''?''"
| "translateTyped syms translating TVoid = ''void''"
| "translateTyped syms translating (TUnion ts) =
     ''('' @ intercalate ''|'' (map (translateTyped syms translating) ts) @ '')''"
| "translateTyped syms translating (TArray t) =
     ''!Array<'' @ translateTyped syms translating t @ ''>''"
| "translateTyped syms translating (TObject flds) =
     ''{'' @ intercalate '', ''
        (map (\<lambda>f. fst f @ '': '' @
                optionalType (fst (snd f)) (translateTyped syms translating (snd (snd f)))) flds) @
     ''}''"
| "translateTyped syms translating (TFunction this params ret) =
     ''function('' @ intercalate '', ''
        (thisType (map_option (translateTyped syms translating) this) @
         map (\<lambda>p. optionalType (fst p) (translateTyped syms translating (snd p))) params) @
     ''): '' @ translateTyped syms translating ret"
| "translateTyped syms translating (TReference name args) =
     (case map_of syms name of
        None \<Rightarrow> ''?''
      | Some (Alias body) \<Rightarrow>
          if name \<in> set translating then ''?''
          else translateTyped syms (name # translating) body
      | Some (ClassOrInterface nonNull) \<Rightarrow>
          (if nonNull then ''!'' else []) @ name @
          typeArguments (map (translateTyped syms translating) args)
      | Some TypeParameter \<Rightarrow> name
      | Some (EnumMember enum) \<Rightarrow> enum)"
  by pat_completeness auto
termination
proof (relation "measures [\<lambda>(s, tr, t). pending s tr, \<lambda>(s, tr, t). size t]", goal_cases)
  case 1
  then show ?case by simp
next
  case (2 syms translating ts x)
  have "size x < Suc (size_list size ts)" using 2 by (induction ts) auto
  then show ?case by simp
next
  case (3 syms translating t)
  then show ?case by simp
next
  case (4 syms translating flds x)
  obtain a b c where x: "x = (a, b, c)" by (cases x)
  have "size_prod (\<lambda>x. 0) (size_prod (\<lambda>x. 0) size) x
          < Suc (size_list (size_prod (\<lambda>x. 0) (size_prod (\<lambda>x. 0) size)) flds)"
    using 4 by (induction flds) auto
  then show ?case using x by simp
next
  case (5 syms translating this params ret a)
  then show ?case by simp
next
  case (6 syms translating this params ret x)
  obtain a b where x: "x = (a, b)" by (cases x)
  have "size_prod (\<lambda>x. 0) size x < Suc (size_list (size_prod (\<lambda>x. 0) size) params)"
    using 6 by (induction params) auto
  then show ?case using x by simp
next
  case (7 syms translating this params ret)
  then show ?case by simp
next
  case (8 syms translating name args x2 body)
  then have "name \<in> fst ` set syms - set translating"
    by (auto dest: map_of_SomeD intro: rev_image_eqI)
  moreover have "fst ` set syms - set (name # translating)
                   = (fst ` set syms - set translating) - {name}"
    by auto
  ultimately have "pending syms (name # translating) < pending syms translating"
    unfolding pending_def by (simp only: card_Diff1_less finite_Diff finite_imageI finite_set)
  then show ?case by simp
next
  case (9 syms translating name args x2 nonNull x)
  have "size x < Suc (size_list size args)" using 9 by (induction args) auto
  then show ?case by simp
qed

text \<open>A translation request: in untyped mode every request is answered \<open>?\<close>.\<close>

definition translate :: "bool \<Rightarrow> (string \<times> declared) list \<Rightarrow> tsType \<Rightarrow> string" where
  "translate untypedMode syms t = (if untypedMode then ''?'' else translateTyped syms [] t)"

text \<open>The typedef emitted for the alias \<open>name\<close>.\<close>

definition typedefOf :: "bool \<Rightarrow> (string \<times> declared) list \<Rightarrow> string \<Rightarrow> string" where
  "typedefOf untypedMode syms name =
     ''/** @typedef {'' @ translate untypedMode syms (TReference name []) @ ''} */''"

text \<open>A type with every reference to the alias \<open>r\<close> replaced by \<open>any\<close>.\<close>

fun replaceReference :: "string \<Rightarrow> tsType \<Rightarrow> tsType" where
  "replaceReference r (TUnion ts) = TUnion (map (replaceReference r) ts)"
| "replaceReference r (TArray t) = TArray (replaceReference r t)"
| "replaceReference r (TObject flds) =
     TObject (map (\<lambda>f. (fst f, fst (snd f), replaceReference r (snd (snd f)))) flds)"
| "replaceReference r (TFunction this params ret) =
     TFunction (map_option (replaceReference r) this)
       (map (\<lambda>p. (fst p, replaceReference r (snd p))) params) (replaceReference r ret)"
| "replaceReference r (TReference s args) =
     (if s = r then TAny else TReference s (map (replaceReference r) args))"
| "replaceReference r t = t"

text \<open>A type that refers to no alias, and one that refers to no alias other than \<open>r\<close>.\<close>

fun isAlias :: "declared option \<Rightarrow> bool" where
  "isAlias (Some (Alias body)) = True"
| "isAlias _ = False"

fun aliasFree :: "(string \<times> declared) list \<Rightarrow> tsType \<Rightarrow> bool" where
  "aliasFree syms (TUnion ts) = list_all (aliasFree syms) ts"
| "aliasFree syms (TArray t) = aliasFree syms t"
| "aliasFree syms (TObject flds) = list_all (\<lambda>f. aliasFree syms (snd (snd f))) flds"
| "aliasFree syms (TFunction this params ret) =
     ((case this of None \<Rightarrow> True | Some c \<Rightarrow> aliasFree syms c) \<and>
      list_all (\<lambda>p. aliasFree syms (snd p)) params \<and> aliasFree syms ret)"
| "aliasFree syms (TReference s args) =
     (\<not> isAlias (map_of syms s) \<and> list_all (aliasFree syms) args)"
| "aliasFree syms t = True"

text \<open>
  The table of section 4.2 applied to the structure of a type alone: it keeps no set of
  symbols and never enters the definition of an alias.
\<close>

fun render :: "(string \<times> declared) list \<Rightarrow> tsType \<Rightarrow> string" where
  "render syms TNumber = ''number''"
| "render syms TString = ''string''"
| "render syms TBoolean = ''boolean''"
| "render syms TNull = ''null''"
| "render syms TUndefined = ''undefined''"
| "render syms TAny = ''?''"
| "render syms TUnknown = ''?''"
| "render syms TVoid = ''void''"
| "render syms (TUnion ts) = ''('' @ intercalate ''|'' (map (render syms) ts) @ '')''"
| "render syms (TArray t) = ''!Array<'' @ render syms t @ ''>''"
| "render syms (TObject flds) =
     ''{'' @ intercalate '', ''
        (map (\<lambda>f. fst f @ '': '' @ optionalType (fst (snd f)) (render syms (snd (snd f)))) flds) @
     ''}''"
| "render syms (TFunction this params ret) =
     ''function('' @ intercalate '', ''
        (thisType (map_option (render syms) this) @
         map (\<lambda>p. optionalType (fst p) (render syms (snd p))) params) @
     ''): '' @ render syms ret"
| "render syms (TReference name args) =
     (case map_of syms name of
        Some (ClassOrInterface nonNull) \<Rightarrow>
          (if nonNull then ''!'' else []) @ name @ typeArguments (map (render syms) args)
      | Some TypeParameter \<Rightarrow> name
      | Some (EnumMember enum) \<Rightarrow> enum
      | Some (Alias body) \<Rightarrow> name
      | None \<Rightarrow> ''?'')"

fun selfContained :: "string \<Rightarrow> (string \<times> declared) list \<Rightarrow> tsType \<Rightarrow> bool" where
  "selfContained r syms (TUnion ts) = list_all (selfContained r syms) ts"
| "selfContained r syms (TArray t) = selfContained r syms t"
| "selfContained r syms (TObject flds) = list_all (\<lambda>f. selfContained r syms (snd (snd f))) flds"
| "selfContained r syms (TFunction this params ret) =
     ((case this of None \<Rightarrow> True | Some c \<Rightarrow> selfContained r syms c) \<and>
      list_all (\<lambda>p. selfContained r syms (snd p)) params \<and> selfContained r syms ret)"
| "selfContained r syms (TReference s args) =
     (s = r \<or> (\<not> isAlias (map_of syms s) \<and> list_all (selfContained r syms) args))"
| "selfContained r syms t = True"

text \<open>\<open>type Recursive = {value: number, next: Recursive}\<close>\<close>

definition Recursive :: "(string \<times> declared) list" where
  "Recursive =
     [(''Recursive'',
       Alias (TObject [(''value'', False, TNumber), (''next'', False, TReference ''Recursive'' [])]))]"

text \<open>
  Two aliases that refer to each other, and a class:
  \<open>type Tree = {owner: Owner, children?: Forest[], parent: Tree | null}\<close>,
  \<open>type Forest = {trees: Tree[]}\<close>, \<open>class Owner\<close>.
\<close>

definition Forest :: "(string \<times> declared) list" where
  "Forest =
     [(''Tree'', Alias (TObject [(''owner'', False, TReference ''Owner'' []),
                                 (''children'', True, TArray (TReference ''Forest'' [])),
                                 (''parent'', False, TUnion [TReference ''Tree'' [], TNull])])),
      (''Forest'', Alias (TObject [(''trees'', False, TArray (TReference ''Tree'' []))])),
      (''Owner'', ClassOrInterface True)]"

section \<open>Concrete inputs\<close>

definition typedSettings :: "bool option \<Rightarrow> bool option \<Rightarrow> settings" where
  "typedSettings typed signatures =
     \<lparr>externsPath = None, isTyped = typed, isTypedSignatures = signatures, verbose = None,
      devMode = None, googModuleRootDir = None, googModuleProjectName = None\<rparr>"

text \<open>A host compiler that reports the given pre-emit and emit diagnostics.\<close>

definition stringApi :: "string list \<Rightarrow> string list \<Rightarrow> (unit, unit, string) compilerApi" where
  "stringApi pre em =
     \<lparr>newTsickleCompilerHost = (\<lambda>opts. ()), createProgram = (\<lambda>fs t. ((), t)),
      getPreEmitDiagnostics = (\<lambda>p. pre), reconfigureForRun = (\<lambda>p pass t. t),
      emitProgram = (\<lambda>p t. (em, [(''a.js'', ''goog.module(...)'')], t)),
      getGeneratedExterns = (\<lambda>t. [])\<rparr>"

text \<open>An annotator that reports the given diagnostics for every file.\<close>

definition stringEarlyApi :: "string list \<Rightarrow> (unit, string) earlyApi" where
  "stringEarlyApi an =
     \<lparr>createProgram_early = (\<lambda>fs ov. ()), getPreEmitDiagnostics_early = (\<lambda>p. []),
      annotate = (\<lambda>p f. (''annotated'', [], an)),
      emit_early = (\<lambda>p. ([], [(''a.js'', ''js'')])),
      resolvePath_early = id, extname = (\<lambda>f. ''.js''),
      convertCommonJsToGoogModule = (\<lambda>f src. ''goog: '' @ src)\<rparr>"

text \<open>A file system with the given time stamps, in which \<open>a.ts\<close> and \<open>b.ts\<close> can be read.\<close>

definition testTools :: "(string \<Rightarrow> int option) \<Rightarrow> string devTools" where
  "testTools mt =
     \<lparr>mtime = mt,
      readFileSync = (\<lambda>p. if p = ''a.ts'' \<or> p = ''b.ts'' then Some (''source of '' @ p) else None),
      resolvePath = (\<lambda>p. ''/w/'' @ p), relative = (\<lambda>r p. drop 3 p), cwd = ''/w'',
      transpileModule = (\<lambda>code f. (''cjs('' @ code @ '')'', [])),
      processES5 = (\<lambda>rel out. ''goog.module('' @ rel @ ''); '' @ out)\<rparr>"

text \<open>
  An earliest-coordinator environment whose annotator reports a diagnostic for \<open>a.ts\<close> only;
  the program is \<open>True\<close> once it has been re-parsed from the annotated sources.
\<close>

definition selectiveEarlyApi ::
  "string list \<Rightarrow> string list \<Rightarrow> string list \<Rightarrow> (bool, string) earlyApi" where
  "selectiveEarlyApi pre re em =
     \<lparr>createProgram_early = (\<lambda>fs ov. ov \<noteq> None),
      getPreEmitDiagnostics_early = (\<lambda>p. if p then re else pre),
      annotate = (\<lambda>p f. (''annotated '' @ f, [],
                           if f = ''a.ts'' then [''type annotation in comment''] else [])),
      emit_early = (\<lambda>p. (em, [(''ok.js'', ''js'')])),
      resolvePath_early = id, extname = (\<lambda>f. ''.js''),
      convertCommonJsToGoogModule = (\<lambda>f src. ''goog: '' @ src)\<rparr>"

subsection \<open>Classes for the downleveler\<close>

text \<open>The span with the given full start, start and end.\<close>

definition mkSpan :: "nat \<Rightarrow> nat \<Rightarrow> nat \<Rightarrow> span" where
  "mkSpan a b c = \<lparr>fullStart = a, start = b, end' = c\<rparr>"

definition annotatedSite :: declSite where
  "annotatedSite =
     DeclSite (OtherKind ''FunctionDeclaration'') None ''/** @Annotation */ function P() {}''"

definition plainSite :: declSite where
  "plainSite = DeclSite (OtherKind ''FunctionDeclaration'') None ''function Q() {}''"

text \<open>
  A type checker for the examples: the decorator \<open>P\<close> is declared under an \<open>@Annotation\<close>
  comment, every other decorator is not; no parameter type has a symbol.
\<close>

fun calleeText :: "node \<Rightarrow> string" where
  "calleeText (IdentifierNode s t) = t"
| "calleeText (CallExpressionNode s f tas as) = calleeText f"
| "calleeText _ = []"

definition testEnv :: "string \<Rightarrow> env" where
  "testEnv src =
     \<lparr>fileText = src, sourceFileName = ''test.ts'',
      getDecoratorDeclarations =
        (\<lambda>d. if calleeText (expression d) = ''P'' then [annotatedSite] else [plainSite]),
      getLeadingCommentRanges = (\<lambda>t. if take 2 t = ''/*'' then Some [(0, 18)] else None),
      getSymbolAtType = (\<lambda>ty. None), SymbolFlags_Value = 107455,
      symbolToString = (\<lambda>ty s. [])\<rparr>"

text \<open>\<open>class X { @P [k]() {} }\<close>\<close>

definition src1 :: string where
  "src1 = ''class X { @P [k]() {} }''"

definition decoP1 :: decorator where
  "decoP1 = MkDecorator (mkSpan 9 10 12) (IdentifierNode (mkSpan 11 11 12) ''P'')"

definition method1 :: node where
  "method1 =
     DeclarationNode MethodDeclaration (mkSpan 9 10 21) (Some [decoP1]) []
       (Some (OtherNode ''ComputedPropertyName'' (mkSpan 12 13 16) [IdentifierNode (mkSpan 14 14 15) ''k'']))
       [] [] None [OtherNode ''Block'' (mkSpan 18 19 21) []]"

definition cls1 :: node where
  "cls1 =
     DeclarationNode ClassDeclaration (mkSpan 0 0 23) None []
       (Some (IdentifierNode (mkSpan 5 6 7) ''X'')) [] [] None [method1]"

text \<open>\<open>@P(a) @Q @P() class Y {}\<close>\<close>

definition src2 :: string where
  "src2 = ''@P(a) @Q @P() class Y {}''"

definition decoPa :: decorator where
  "decoPa =
     MkDecorator (mkSpan 0 0 5)
       (CallExpressionNode (mkSpan 1 1 5) (IdentifierNode (mkSpan 1 1 2) ''P'') []
          [IdentifierNode (mkSpan 3 3 4) ''a''])"

definition decoQ :: decorator where
  "decoQ = MkDecorator (mkSpan 5 6 8) (IdentifierNode (mkSpan 7 7 8) ''Q'')"

definition decoP0 :: decorator where
  "decoP0 =
     MkDecorator (mkSpan 8 9 13)
       (CallExpressionNode (mkSpan 10 10 13) (IdentifierNode (mkSpan 10 10 11) ''P'') [] [])"

definition cls2 :: node where
  "cls2 =
     DeclarationNode ClassDeclaration (mkSpan 0 0 24) (Some [decoPa, decoQ, decoP0]) []
       (Some (IdentifierNode (mkSpan 19 20 21) ''Y'')) [] [] None []"

text \<open>\<open>class Z { @P [k]; }\<close>\<close>

definition src3 :: string where
  "src3 = ''class Z { @P [k]; }''"

definition property3 :: node where
  "property3 =
     DeclarationNode PropertyDeclaration (mkSpan 9 10 17) (Some [decoP1]) []
       (Some (OtherNode ''ComputedPropertyName'' (mkSpan 12 13 16) [IdentifierNode (mkSpan 14 14 15) ''k'']))
       [] [] None []"

definition cls3 :: node where
  "cls3 =
     DeclarationNode ClassDeclaration (mkSpan 0 0 19) None []
       (Some (IdentifierNode (mkSpan 5 6 7) ''Z'')) [] [] None [property3]"

text \<open>\<open>class W { @P m; }\<close>\<close>

definition src4 :: string where
  "src4 = ''class W { @P m; }''"

definition property4 :: node where
  "property4 =
     DeclarationNode PropertyDeclaration (mkSpan 9 10 15) (Some [decoP1]) []
       (Some (IdentifierNode (mkSpan 12 13 14) ''m'')) [] [] None []"

definition cls4 :: node where
  "cls4 =
     DeclarationNode ClassDeclaration (mkSpan 0 0 17) None []
       (Some (IdentifierNode (mkSpan 5 6 7) ''W'')) [] [] None [property4]"

section \<open>The overlay of the source-replacing host\<close>

text \<open>
  C10. \<open>getSourceFile\<close> builds a source file from the overlay text only when that text is
  non-empty: for an overlay entry that maps the resolved path to the empty string, and
  for a path without an entry, the delegate's file is returned; for a non-empty text the
  file is created from that text.
\<close>

theorem getSourceFile_overlay_nonempty_only:
  "(m (R f) = Some [] \<longrightarrow> getSourceFile R C D m f l oe = D (R f) l oe) \<and>
   (m (R f) = None \<longrightarrow> getSourceFile R C D m f l oe = D (R f) l oe) \<and>
   (\<forall>t. m (R f) = Some t \<and> t \<noteq> [] \<longrightarrow> getSourceFile R C D m f l oe = C (R f) t l)"
  by (simp add: getSourceFile_def truthyString_def)

theorem getSourceFile_overlay_nonempty_only_witness:
  "[''/a.ts'' \<mapsto> ''''] (id ''/a.ts'') = Some [] \<and>
   getSourceFile id (\<lambda>p t l. ''overlay: '' @ t) (\<lambda>p l oe. ''original of '' @ p)
     [''/a.ts'' \<mapsto> ''''] ''/a.ts'' () () = ''original of /a.ts'' \<and>
   [''/a.ts'' \<mapsto> ''''] (id ''/b.ts'') = None \<and>
   getSourceFile id (\<lambda>p t l. ''overlay: '' @ t) (\<lambda>p l oe. ''original of '' @ p)
     [''/a.ts'' \<mapsto> ''''] ''/b.ts'' () () = ''original of /b.ts'' \<and>
   [''/a.ts'' \<mapsto> ''x''] (id ''/a.ts'') = Some ''x'' \<and>
   getSourceFile id (\<lambda>p t l. ''overlay: '' @ t) (\<lambda>p l oe. ''original of '' @ p)
     [''/a.ts'' \<mapsto> ''x''] ''/a.ts'' () () = ''overlay: x''"
  using getSourceFile_overlay_nonempty_only
          [of "[''/a.ts'' \<mapsto> '''']" id "''/a.ts''" "\<lambda>p t l. ''overlay: '' @ t"
              "\<lambda>p l oe. ''original of '' @ p" "()" "()"]
        getSourceFile_overlay_nonempty_only
          [of "[''/a.ts'' \<mapsto> '''']" id "''/b.ts''" "\<lambda>p t l. ''overlay: '' @ t"
              "\<lambda>p l oe. ''original of '' @ p" "()" "()"]
        getSourceFile_overlay_nonempty_only
          [of "[''/a.ts'' \<mapsto> ''x'']" id "''/a.ts''" "\<lambda>p t l. ''overlay: '' @ t"
              "\<lambda>p l oe. ''original of '' @ p" "()" "()"]
  by simp

section \<open>The @suppress prefix\<close>

lemma suppressAll_nonempty: "suppressAll \<noteq> []"
  unfolding suppressAll_def by (rule list.distinct(2))

text \<open>
  C9. \<open>main\<close> writes a JavaScript file with the \<open>@fileoverview @suppress\<close> block in front
  exactly when the options derived from the settings are \<open>untyped\<close> or have
  \<open>untypedFunctionBodies\<close>: in that case the text written is the block followed by the
  file's text (which differs from the text alone), otherwise it is the file's text
  unchanged; and every file of the closure is written in this way.
\<close>

theorem suppress_block_iff_untyped:
  "writeJsFile dirname s (fileName, src) =
     [MkdirpSync (dirname fileName),
      WriteFileSync fileName
        (if untyped (tsickleCompilerHostOptions (getDefaultClosureJSOptions fileNames s)) \<or>
            truthy (untypedFunctionBodies
                      (tsickleCompilerHostOptions (getDefaultClosureJSOptions fileNames s)))
         then suppressAll @ src else src)]
   \<and> suppressAll @ src \<noteq> src
   \<and> ((fileName, src) \<in> set jsFiles \<longrightarrow>
        set (writeJsFile dirname s (fileName, src))
          \<subseteq> set (snd (main_write dirname s (Some (jsFiles, externs)))))"
proof (intro conjI impI)
  show "writeJsFile dirname s (fileName, src) =
     [MkdirpSync (dirname fileName),
      WriteFileSync fileName
        (if untyped (tsickleCompilerHostOptions (getDefaultClosureJSOptions fileNames s)) \<or>
            truthy (untypedFunctionBodies
                      (tsickleCompilerHostOptions (getDefaultClosureJSOptions fileNames s)))
         then suppressAll @ src else src)]"
    by (simp add: writeJsFile_def getDefaultClosureJSOptions_def)
  show "suppressAll @ src \<noteq> src"
    by (simp add: suppressAll_nonempty)
  assume "(fileName, src) \<in> set jsFiles"
  then have "set (writeJsFile dirname s (fileName, src))
               \<subseteq> set (concat (map (writeJsFile dirname s) jsFiles))"
    by auto
  moreover obtain rest where
    "snd (main_write dirname s (Some (jsFiles, externs))) =
       concat (map (writeJsFile dirname s) jsFiles) @ rest"
    by (simp add: main_write_def)
  ultimately show "set (writeJsFile dirname s (fileName, src))
          \<subseteq> set (snd (main_write dirname s (Some (jsFiles, externs))))"
    by (simp only: set_append le_supI1)
qed

theorem suppress_block_iff_untyped_witness:
  "(''a.js'', ''var x;'') \<in> set [(''a.js'', ''var x;'')] \<and>
   snd (main_write (\<lambda>p. ''.'') (typedSettings (Some True) None) (Some ([(''a.js'', ''var x;'')], [])))
     = [MkdirpSync ''.'', WriteFileSync ''a.js'' ''var x;''] \<and>
   snd (main_write (\<lambda>p. ''.'') (typedSettings None None) (Some ([(''a.js'', ''var x;'')], [])))
     = [MkdirpSync ''.'', WriteFileSync ''a.js'' (suppressAll @ ''var x;'')] \<and>
   snd (main_write (\<lambda>p. ''.'') (typedSettings (Some True) (Some True))
          (Some ([(''a.js'', ''var x;'')], [])))
     = [MkdirpSync ''.'', WriteFileSync ''a.js'' (suppressAll @ ''var x;'')]"
  using suppress_block_iff_untyped
          [of "\<lambda>p. ''.''" "typedSettings (Some True) None" "''a.js''" "''var x;''" "[]"
              "[(''a.js'', ''var x;'')]" "[]"]
        suppress_block_iff_untyped
          [of "\<lambda>p. ''.''" "typedSettings None None" "''a.js''" "''var x;''" "[]"
              "[(''a.js'', ''var x;'')]" "[]"]
        suppress_block_iff_untyped
          [of "\<lambda>p. ''.''" "typedSettings (Some True) (Some True)" "''a.js''" "''var x;''" "[]"
              "[(''a.js'', ''var x;'')]" "[]"]
  by (simp add: main_write_def typedSettings_def getDefaultClosureJSOptions_def truthy_def
        truthyString_def)

section \<open>When the coordinator aborts\<close>

text \<open>
  The loop of the earliest coordinator over the input files: it stops at the first file
  that reports, with that file's diagnostics, and otherwise returns the annotated sources.
\<close>

lemma annotateFiles_first_reporting:
  "find (reports api p) fs = Some f \<Longrightarrow>
   annotateFiles api p fs acc = Inl (snd (snd (annotate api p f)))"
proof (induction fs arbitrary: acc)
  case Nil
  then show ?case by simp
next
  case (Cons g fs)
  obtain out ex ds where a: "annotate api p g = (out, ex, ds)" by (cases "annotate api p g")
  obtain o1 e1 where acc: "acc = (o1, e1)" by (cases acc)
  show ?case
  proof (cases "reports api p g")
    case True
    with Cons.prems have "f = g" by simp
    with True a acc show ?thesis by (simp add: reports_def)
  next
    case False
    with Cons.prems have "find (reports api p) fs = Some f" by simp
    from Cons.IH [OF this] False a acc show ?thesis by (simp add: reports_def)
  qed
qed

lemma annotateFiles_none_reporting:
  "find (reports api p) fs = None \<Longrightarrow> \<exists>out ext. annotateFiles api p fs acc = Inr (out, ext)"
proof (induction fs arbitrary: acc)
  case Nil
  then show ?case by (cases acc) simp
next
  case (Cons g fs)
  obtain out ex ds where a: "annotate api p g = (out, ex, ds)" by (cases "annotate api p g")
  obtain o1 e1 where acc: "acc = (o1, e1)" by (cases acc)
  from Cons.prems have n: "\<not> reports api p g" and r: "find (reports api p) fs = None"
    by (simp_all split: if_splits)
  from n a have "ds = []" by (simp add: reports_def)
  with a acc Cons.IH [OF r] show ?case by simp
qed

text \<open>
  C3, as the claim states it, fails: without any pre-emit (type-check) diagnostic the
  coordinator returns no output when the emit step reports a diagnostic, and the earliest
  coordinator returns only the errors when the annotator reports a diagnostic for a file.
\<close>

theorem toClosureJS_aborts_without_type_errors:
  "getPreEmitDiagnostics (stringApi [] [''emit failed'']) () = [] \<and>
   toClosureJS (stringApi [] [''emit failed''])
     (getDefaultClosureJSOptions [''a.ts''] (typedSettings None None)) [''a.ts''] []
     = (None, [''emit failed'']) \<and>
   getPreEmitDiagnostics_early (stringEarlyApi [''type annotation in comment'']) () = [] \<and>
   toClosureJS_early (stringEarlyApi [''type annotation in comment'']) [''a.ts'']
     = Inl [''type annotation in comment'']"
  by (simp add: toClosureJS_def toClosureJS_early_def stringApi_def stringEarlyApi_def
        runPass_def getDefaultClosureJSOptions_def)

text \<open>
  C3, amended. The coordinator returns no output in exactly two cases: when the pre-emit
  diagnostics of the original program are not empty, and otherwise when the emit step
  reports diagnostics; in both it appends exactly these diagnostics to the list it was
  given, and when it returns the emitted files and the externs it leaves that list
  unchanged. The earliest coordinator returns only errors in exactly four cases, in this
  order: the pre-emit diagnostics of the original program are not empty; some input file's
  annotation reports diagnostics (it returns those of the first such file); the pre-emit
  diagnostics of the program re-parsed from the annotated sources are not empty; the emit
  step reports diagnostics. Otherwise it returns the converted files and the externs.
\<close>

theorem toClosureJS_abort_cases:
  assumes "createProgram api fileNames (newTsickleCompilerHost api opts) = (program, tch)"
      and "runPass api opts fileNames CLOSURIZE
             (runPass api opts fileNames DECORATOR_DOWNLEVEL (program, tch)) = (program', tch')"
      and "emitProgram api program' tch' = (emitted, jsFiles, tch'')"
      and "createProgram_early early inputs None = original"
  shows "toClosureJS api opts fileNames allDiagnostics =
           (if getPreEmitDiagnostics api program \<noteq> []
            then (None, allDiagnostics @ getPreEmitDiagnostics api program)
            else if emitted \<noteq> [] then (None, allDiagnostics @ emitted)
            else (Some (jsFiles, getGeneratedExterns api tch''), allDiagnostics))
       \<and> (getPreEmitDiagnostics_early early original \<noteq> [] \<longrightarrow>
           toClosureJS_early early inputs = Inl (getPreEmitDiagnostics_early early original))
       \<and> (getPreEmitDiagnostics_early early original = [] \<longrightarrow>
           (\<forall>f. find (reports early original) inputs = Some f \<longrightarrow>
              toClosureJS_early early inputs = Inl (snd (snd (annotate early original f)))) \<and>
           (find (reports early original) inputs = None \<longrightarrow>
              (\<exists>tsickleOutput tsickleExterns.
                 annotateFiles early original inputs ([], []) = Inr (tsickleOutput, tsickleExterns) \<and>
                 toClosureJS_early early inputs =
                   (if getPreEmitDiagnostics_early early
                         (createProgram_early early inputs (Some tsickleOutput)) \<noteq> []
                    then Inl (getPreEmitDiagnostics_early early
                                (createProgram_early early inputs (Some tsickleOutput)))
                    else if fst (emit_early early
                                   (createProgram_early early inputs (Some tsickleOutput))) \<noteq> []
                    then Inl (fst (emit_early early
                                     (createProgram_early early inputs (Some tsickleOutput))))
                    else Inr (map (\<lambda>(f, src). if extname early f \<noteq> ''.map''
                                              then (f, convertCommonJsToGoogModule early f src)
                                              else (f, src))
                                (snd (emit_early early
                                        (createProgram_early early inputs (Some tsickleOutput)))),
                              tsickleExterns)))))"
proof (intro conjI impI allI)
  show "toClosureJS api opts fileNames allDiagnostics =
           (if getPreEmitDiagnostics api program \<noteq> []
            then (None, allDiagnostics @ getPreEmitDiagnostics api program)
            else if emitted \<noteq> [] then (None, allDiagnostics @ emitted)
            else (Some (jsFiles, getGeneratedExterns api tch''), allDiagnostics))"
    using assms(1-3) by (simp add: toClosureJS_def)
next
  assume "getPreEmitDiagnostics_early early original \<noteq> []"
  then show "toClosureJS_early early inputs = Inl (getPreEmitDiagnostics_early early original)"
    using assms(4) by (simp add: toClosureJS_early_def)
next
  fix f
  assume p: "getPreEmitDiagnostics_early early original = []"
     and f: "find (reports early original) inputs = Some f"
  from annotateFiles_first_reporting [OF f, of "([], [])"] p assms(4)
  show "toClosureJS_early early inputs = Inl (snd (snd (annotate early original f)))"
    by (simp add: toClosureJS_early_def)
next
  assume p: "getPreEmitDiagnostics_early early original = []"
     and n: "find (reports early original) inputs = None"
  from annotateFiles_none_reporting [OF n, of "([], [])"] obtain out ext where
    a: "annotateFiles early original inputs ([], []) = Inr (out, ext)" by blast
  have "toClosureJS_early early inputs =
               (if getPreEmitDiagnostics_early early
                     (createProgram_early early inputs (Some out)) \<noteq> []
                then Inl (getPreEmitDiagnostics_early early
                            (createProgram_early early inputs (Some out)))
                else if fst (emit_early early (createProgram_early early inputs (Some out))) \<noteq> []
                then Inl (fst (emit_early early (createProgram_early early inputs (Some out))))
                else Inr (map (\<lambda>(f, src). if extname early f \<noteq> ''.map''
                                          then (f, convertCommonJsToGoogModule early f src)
                                          else (f, src))
                            (snd (emit_early early
                                    (createProgram_early early inputs (Some out)))),
                          ext))"
    using a p assms(4)
    by (cases "emit_early early (createProgram_early early inputs (Some out))")
       (simp add: toClosureJS_early_def Let_def)
  with a show "\<exists>tsickleOutput tsickleExterns.
             annotateFiles early original inputs ([], []) = Inr (tsickleOutput, tsickleExterns) \<and>
             toClosureJS_early early inputs =
               (if getPreEmitDiagnostics_early early
                     (createProgram_early early inputs (Some tsickleOutput)) \<noteq> []
                then Inl (getPreEmitDiagnostics_early early
                            (createProgram_early early inputs (Some tsickleOutput)))
                else if fst (emit_early early
                               (createProgram_early early inputs (Some tsickleOutput))) \<noteq> []
                then Inl (fst (emit_early early
                                 (createProgram_early early inputs (Some tsickleOutput))))
                else Inr (map (\<lambda>(f, src). if extname early f \<noteq> ''.map''
                                          then (f, convertCommonJsToGoogModule early f src)
                                          else (f, src))
                            (snd (emit_early early
                                    (createProgram_early early inputs (Some tsickleOutput)))),
                          tsickleExterns))"
    by blast
qed

lemma stringApi_steps:
  "createProgram (stringApi pre em) fs (newTsickleCompilerHost (stringApi pre em) opts) = ((), ())"
  "runPass (stringApi pre em) opts fs CLOSURIZE
     (runPass (stringApi pre em) opts fs DECORATOR_DOWNLEVEL ((), ())) = ((), ())"
  "emitProgram (stringApi pre em) () () = (em, [(''a.js'', ''goog.module(...)'')], ())"
  by (simp_all add: stringApi_def runPass_def)

theorem toClosureJS_abort_cases_witness:
  "toClosureJS (stringApi [''type error''] [])
     (getDefaultClosureJSOptions [''a.ts''] (typedSettings None None)) [''a.ts''] [''earlier'']
     = (None, [''earlier'', ''type error'']) \<and>
   toClosureJS (stringApi [] [''emit failed''])
     (getDefaultClosureJSOptions [''a.ts''] (typedSettings None None)) [''a.ts''] [''earlier'']
     = (None, [''earlier'', ''emit failed'']) \<and>
   toClosureJS (stringApi [] [])
     (getDefaultClosureJSOptions [''a.ts''] (typedSettings None None)) [''a.ts''] [''earlier'']
     = (Some ([(''a.js'', ''goog.module(...)'')], []), [''earlier'']) \<and>
   toClosureJS_early (selectiveEarlyApi [''type error''] [] []) [''ok.ts'', ''a.ts'', ''c.ts'']
     = Inl [''type error''] \<and>
   toClosureJS_early (selectiveEarlyApi [] [] []) [''ok.ts'', ''a.ts'', ''c.ts'']
     = Inl [''type annotation in comment''] \<and>
   toClosureJS_early (selectiveEarlyApi [] [''error after annotation''] []) [''ok.ts'', ''c.ts'']
     = Inl [''error after annotation''] \<and>
   toClosureJS_early (selectiveEarlyApi [] [] [''emit failed'']) [''ok.ts'', ''c.ts'']
     = Inl [''emit failed''] \<and>
   toClosureJS_early (selectiveEarlyApi [] [] []) [''ok.ts'', ''c.ts'']
     = Inr ([(''ok.js'', ''goog: js'')], [])"
proof -
  let ?opts = "getDefaultClosureJSOptions [''a.ts''] (typedSettings None None)"
  have e: "\<And>pre re em fs. createProgram_early (selectiveEarlyApi pre re em) fs None = False"
    by (simp add: selectiveEarlyApi_def)
  have full: "find (reports (selectiveEarlyApi pre re em) False) [''ok.ts'', ''a.ts'', ''c.ts'']
                = Some ''a.ts''" for pre re em
    by (simp add: reports_def selectiveEarlyApi_def)
  have part: "find (reports (selectiveEarlyApi pre re em) False) [''ok.ts'', ''c.ts''] = None"
    for pre re em
    by (simp add: reports_def selectiveEarlyApi_def)
  have out: "annotateFiles (selectiveEarlyApi pre re em) False [''ok.ts'', ''c.ts''] ([], [])
               = Inr ([(''ok.ts'', ''annotated ok.ts''), (''c.ts'', ''annotated c.ts'')], [])"
    for pre re em
    by (simp add: selectiveEarlyApi_def)
  note t1 = toClosureJS_abort_cases
    [OF stringApi_steps(1) [of "[''type error'']" "[]" "[''a.ts'']" ?opts]
        stringApi_steps(2) [of "[''type error'']" "[]" ?opts "[''a.ts'']"]
        stringApi_steps(3) [of "[''type error'']" "[]"]
        e [of "[''type error'']" "[]" "[]" "[''ok.ts'', ''a.ts'', ''c.ts'']"],
     where allDiagnostics = "[''earlier'']"]
  note t2 = toClosureJS_abort_cases
    [OF stringApi_steps(1) [of "[]" "[''emit failed'']" "[''a.ts'']" ?opts]
        stringApi_steps(2) [of "[]" "[''emit failed'']" ?opts "[''a.ts'']"]
        stringApi_steps(3) [of "[]" "[''emit failed'']"]
        e [of "[]" "[]" "[]" "[''ok.ts'', ''a.ts'', ''c.ts'']"],
     where allDiagnostics = "[''earlier'']"]
  note t3 = toClosureJS_abort_cases
    [OF stringApi_steps(1) [of "[]" "[]" "[''a.ts'']" ?opts]
        stringApi_steps(2) [of "[]" "[]" ?opts "[''a.ts'']"]
        stringApi_steps(3) [of "[]" "[]"]
        e [of "[]" "[''error after annotation'']" "[]" "[''ok.ts'', ''c.ts'']"],
     where allDiagnostics = "[''earlier'']"]
  note t4 = toClosureJS_abort_cases
    [OF stringApi_steps(1) [of "[]" "[]" "[''a.ts'']" ?opts]
        stringApi_steps(2) [of "[]" "[]" ?opts "[''a.ts'']"]
        stringApi_steps(3) [of "[]" "[]"]
        e [of "[]" "[]" "[''emit failed'']" "[''ok.ts'', ''c.ts'']"],
     where allDiagnostics = "[''earlier'']"]
  note t5 = toClosureJS_abort_cases
    [OF stringApi_steps(1) [of "[]" "[]" "[''a.ts'']" ?opts]
        stringApi_steps(2) [of "[]" "[]" ?opts "[''a.ts'']"]
        stringApi_steps(3) [of "[]" "[]"]
        e [of "[]" "[]" "[]" "[''ok.ts'', ''c.ts'']"],
     where allDiagnostics = "[''earlier'']"]
  have c1: "toClosureJS (stringApi [''type error''] []) ?opts [''a.ts''] [''earlier'']
              = (None, [''earlier'', ''type error''])"
    using t1 by (simp add: stringApi_def)
  have c2: "toClosureJS (stringApi [] [''emit failed'']) ?opts [''a.ts''] [''earlier'']
              = (None, [''earlier'', ''emit failed''])"
    using t2 by (simp add: stringApi_def)
  have c3: "toClosureJS (stringApi [] []) ?opts [''a.ts''] [''earlier'']
              = (Some ([(''a.js'', ''goog.module(...)'')], []), [''earlier''])"
    using t3 by (simp add: stringApi_def)
  have e1: "toClosureJS_early (selectiveEarlyApi [''type error''] [] [])
              [''ok.ts'', ''a.ts'', ''c.ts''] = Inl [''type error'']"
    using t1 by (simp add: selectiveEarlyApi_def)
  have e2: "toClosureJS_early (selectiveEarlyApi [] [] []) [''ok.ts'', ''a.ts'', ''c.ts'']
              = Inl [''type annotation in comment'']"
    using t2 full [of "[]" "[]" "[]"] by (simp add: selectiveEarlyApi_def)
  have e3: "toClosureJS_early (selectiveEarlyApi [] [''error after annotation''] [])
              [''ok.ts'', ''c.ts''] = Inl [''error after annotation'']"
    using t3 part [of "[]" "[''error after annotation'']" "[]"]
      out [of "[]" "[''error after annotation'']" "[]"]
    by (simp add: selectiveEarlyApi_def)
  have e4: "toClosureJS_early (selectiveEarlyApi [] [] [''emit failed'']) [''ok.ts'', ''c.ts'']
              = Inl [''emit failed'']"
    using t4 part [of "[]" "[]" "[''emit failed'']"] out [of "[]" "[]" "[''emit failed'']"]
    by (simp add: selectiveEarlyApi_def)
  have e5: "toClosureJS_early (selectiveEarlyApi [] [] []) [''ok.ts'', ''c.ts'']
              = Inr ([(''ok.js'', ''goog: js'')], [])"
    using t5 part [of "[]" "[]" "[]"] out [of "[]" "[]" "[]"]
    by (simp add: selectiveEarlyApi_def)
  from c1 c2 c3 e1 e2 e3 e4 e5 show ?thesis by simp
qed


section \<open>Dev mode\<close>

lemma map_set_keys: "fst ` set (map_set k x m) = insert k (fst ` set m)"
proof (induction m)
  case Nil
  then show ?case by simp
next
  case (Cons p m)
  obtain k' y where p: "p = (k', y)" by (cases p)
  show ?case
  proof (cases "k' = k")
    case True
    then show ?thesis using p by simp
  next
    case False
    then show ?thesis using p Cons.IH by (simp add: insert_commute)
  qed
qed

lemma map_set_entries:
  "(k', v) \<in> set (map_set k x m) \<Longrightarrow> (k' = k \<and> v = x) \<or> (k', v) \<in> set m"
  by (induction m) (auto split: if_splits)

lemma devModeFile_cases:
  assumes "devModeFile t outDir s tsName (js0, d0) = Inr (js, d)"
  shows "(\<not> isDeclarationFile tsName \<and> outdated t outDir s tsName \<and>
           js = map_set (tsNameToJsName t tsName outDir s) (devModeOutput t outDir s tsName) js0)
         \<or> ((isDeclarationFile tsName \<or> \<not> outdated t outDir s tsName) \<and> js = js0 \<and> d = d0)"
  using assms
  by (auto simp: devModeFile_def isDeclarationFile_def outdated_def devModeOutput_def Let_def
           split: if_splits option.splits prod.splits)

lemma devModeFiles_entries:
  "devModeFiles t outDir s fs (js0, d0) = Inr (js, d) \<Longrightarrow>
     fst ` set js0 \<subseteq> fst ` set js \<and>
     (\<forall>tsName \<in> set fs. \<not> isDeclarationFile tsName \<and> outdated t outDir s tsName \<longrightarrow>
        tsNameToJsName t tsName outDir s \<in> fst ` set js) \<and>
     (\<forall>k v. (k, v) \<in> set js \<longrightarrow> (k, v) \<in> set js0 \<or>
        (\<exists>tsName \<in> set fs. \<not> isDeclarationFile tsName \<and> outdated t outDir s tsName \<and>
           k = tsNameToJsName t tsName outDir s \<and> v = devModeOutput t outDir s tsName))"
proof (induction fs arbitrary: js0 d0)
  case Nil
  then show ?case by auto
next
  case (Cons f fs)
  from Cons.prems obtain js1 d1 where
    one: "devModeFile t outDir s f (js0, d0) = Inr (js1, d1)" and
    rest: "devModeFiles t outDir s fs (js1, d1) = Inr (js, d)"
    by (auto split: sum.splits)
  note ih = Cons.IH [OF rest]
  note c = devModeFile_cases [OF one]
  have k1: "fst ` set js0 \<subseteq> fst ` set js1"
  proof -
    from c have "js1 = js0 \<or> fst ` set js1 = insert (tsNameToJsName t f outDir s) (fst ` set js0)"
      using map_set_keys [of "tsNameToJsName t f outDir s" "devModeOutput t outDir s f" js0]
      by auto
    then show ?thesis by auto
  qed
  have e1: "\<And>k v. (k, v) \<in> set js1 \<Longrightarrow> (k, v) \<in> set js0 \<or>
      (\<not> isDeclarationFile f \<and> outdated t outDir s f \<and>
       k = tsNameToJsName t f outDir s \<and> v = devModeOutput t outDir s f)"
    using c by (auto dest: map_set_entries)
  have f1: "\<not> isDeclarationFile f \<and> outdated t outDir s f \<Longrightarrow>
              tsNameToJsName t f outDir s \<in> fst ` set js1"
  proof -
    assume "\<not> isDeclarationFile f \<and> outdated t outDir s f"
    with c have "fst ` set js1 = insert (tsNameToJsName t f outDir s) (fst ` set js0)"
      using map_set_keys [of "tsNameToJsName t f outDir s" "devModeOutput t outDir s f" js0]
      by auto
    then show ?thesis by simp
  qed
  show ?case
  proof (intro conjI)
    from ih have "fst ` set js1 \<subseteq> fst ` set js" by (rule conjunct1)
    with k1 show "fst ` set js0 \<subseteq> fst ` set js" by (rule subset_trans)
    show "\<forall>tsName\<in>set (f # fs). \<not> isDeclarationFile tsName \<and> outdated t outDir s tsName \<longrightarrow>
             tsNameToJsName t tsName outDir s \<in> fst ` set js"
      using f1 ih by auto
    show "\<forall>k v. (k, v) \<in> set js \<longrightarrow> (k, v) \<in> set js0 \<or>
            (\<exists>tsName\<in>set (f # fs). \<not> isDeclarationFile tsName \<and> outdated t outDir s tsName \<and>
                k = tsNameToJsName t tsName outDir s \<and> v = devModeOutput t outDir s tsName)"
    proof (intro allI impI disjCI)
      fix k v
      assume kv: "(k, v) \<in> set js"
         and n: "\<not> (\<exists>tsName\<in>set (f # fs). \<not> isDeclarationFile tsName \<and>
                      outdated t outDir s tsName \<and>
                      k = tsNameToJsName t tsName outDir s \<and> v = devModeOutput t outDir s tsName)"
      from ih kv have "(k, v) \<in> set js1 \<or>
        (\<exists>tsName \<in> set fs. \<not> isDeclarationFile tsName \<and> outdated t outDir s tsName \<and>
           k = tsNameToJsName t tsName outDir s \<and> v = devModeOutput t outDir s tsName)"
        by blast
      then show "(k, v) \<in> set js0"
        using e1 [of k v] n by auto
    qed
  qed
qed

lemma devModeFile_returns:
  assumes "isDeclarationFile tsName \<or> (mtime t tsName \<noteq> None \<and> readFileSync t tsName \<noteq> None)"
  shows "\<exists>acc'. devModeFile t outDir s tsName acc = Inr acc'"
  using assms
  by (cases acc)
     (auto simp: devModeFile_def isDeclarationFile_def Let_def split: option.splits prod.splits)

lemma devModeFiles_returns:
  "\<forall>tsName \<in> set fs. isDeclarationFile tsName \<or>
      (mtime t tsName \<noteq> None \<and> readFileSync t tsName \<noteq> None) \<Longrightarrow>
   \<exists>acc'. devModeFiles t outDir s fs acc = Inr acc'"
proof (induction fs arbitrary: acc)
  case Nil
  then show ?case by simp
next
  case (Cons f fs)
  then obtain acc1 where "devModeFile t outDir s f acc = Inr acc1"
    using devModeFile_returns [of f t outDir s acc] by auto
  then show ?case using Cons by simp
qed

text \<open>
  C4, as the claim states it, fails: an input file that is not a declaration file and
  whose JavaScript output on disk is at least as new is skipped, so it is absent from
  the returned \<open>jsFiles\<close>.
\<close>

theorem devMode_skips_up_to_date_file:
  "\<not> isDeclarationFile ''a.ts'' \<and>
   toClosureJSDevMode (testTools [''a.ts'' \<mapsto> 100, ''a.js'' \<mapsto> 200]) None [''a.ts'']
     (typedSettings None None) [] = Inr (Some ([], []), [])"
  by (simp add: isDeclarationFile_def substr_last_def toClosureJSDevMode_def devModeFile_def
        tsNameToJsName_def replace_ts_js_def truthyString_def testTools_def)

text \<open>
  C4, amended. In dev mode, when every input file that is not a declaration file can be
  read, the call returns, with empty externs, a map that holds the JavaScript name of
  every input file that is not a declaration file and is newer than its JavaScript output
  on disk (or has none); and every entry of the map is such a file's name with the
  \<open>goog.module\<close> conversion of its standalone transpilation. No other pass is applied;
  files whose output is up to date are skipped.
\<close>

theorem devMode_transpiles_outdated_files:
  assumes "\<forall>tsName \<in> set fileNames. isDeclarationFile tsName \<or>
             (mtime t tsName \<noteq> None \<and> readFileSync t tsName \<noteq> None)"
  shows "\<exists>jsFiles ds.
           toClosureJSDevMode t outDir fileNames s allDiagnostics = Inr (Some (jsFiles, []), ds) \<and>
           (\<forall>tsName \<in> set fileNames.
              \<not> isDeclarationFile tsName \<and> outdated t outDir s tsName \<longrightarrow>
              tsNameToJsName t tsName outDir s \<in> fst ` set jsFiles) \<and>
           (\<forall>k v. (k, v) \<in> set jsFiles \<longrightarrow>
              (\<exists>tsName \<in> set fileNames.
                 \<not> isDeclarationFile tsName \<and> outdated t outDir s tsName \<and>
                 k = tsNameToJsName t tsName outDir s \<and> v = devModeOutput t outDir s tsName))"
proof -
  from devModeFiles_returns [OF assms] obtain jsFiles ds where
    r: "devModeFiles t outDir s fileNames ([], allDiagnostics) = Inr (jsFiles, ds)"
    by (metis surj_pair)
  from devModeFiles_entries [OF r] have
    "(\<forall>tsName \<in> set fileNames.
        \<not> isDeclarationFile tsName \<and> outdated t outDir s tsName \<longrightarrow>
        tsNameToJsName t tsName outDir s \<in> fst ` set jsFiles) \<and>
     (\<forall>k v. (k, v) \<in> set jsFiles \<longrightarrow>
        (\<exists>tsName \<in> set fileNames.
           \<not> isDeclarationFile tsName \<and> outdated t outDir s tsName \<and>
           k = tsNameToJsName t tsName outDir s \<and> v = devModeOutput t outDir s tsName))"
    by simp
  moreover from r have
    "toClosureJSDevMode t outDir fileNames s allDiagnostics = Inr (Some (jsFiles, []), ds)"
    by (simp add: toClosureJSDevMode_def)
  ultimately show ?thesis by blast
qed

theorem devMode_transpiles_outdated_files_witness:
  "toClosureJSDevMode (testTools [''a.ts'' \<mapsto> 100, ''b.ts'' \<mapsto> 100, ''a.js'' \<mapsto> 200]) None
     [''a.ts'', ''b.ts'', ''c.d.ts''] (typedSettings None None) []
     = Inr (Some ([(''b.js'', ''goog.module(b.js); cjs(source of b.ts)'')], []), []) \<and>
   outdated (testTools [''a.ts'' \<mapsto> 100, ''b.ts'' \<mapsto> 100, ''a.js'' \<mapsto> 200]) None
     (typedSettings None None) ''b.ts'' \<and>
   \<not> outdated (testTools [''a.ts'' \<mapsto> 100, ''b.ts'' \<mapsto> 100, ''a.js'' \<mapsto> 200]) None
     (typedSettings None None) ''a.ts''"
proof -
  have h: "\<forall>tsName \<in> set [''a.ts'', ''b.ts'', ''c.d.ts'']. isDeclarationFile tsName \<or>
      (mtime (testTools [''a.ts'' \<mapsto> 100, ''b.ts'' \<mapsto> 100, ''a.js'' \<mapsto> 200]) tsName \<noteq> None \<and>
       readFileSync (testTools [''a.ts'' \<mapsto> 100, ''b.ts'' \<mapsto> 100, ''a.js'' \<mapsto> 200]) tsName
         \<noteq> None)"
    by (simp add: isDeclarationFile_def substr_last_def testTools_def)
  have e: "toClosureJSDevMode (testTools [''a.ts'' \<mapsto> 100, ''b.ts'' \<mapsto> 100, ''a.js'' \<mapsto> 200]) None
     [''a.ts'', ''b.ts'', ''c.d.ts''] (typedSettings None None) []
     = Inr (Some ([(''b.js'', ''goog.module(b.js); cjs(source of b.ts)'')], []), [])"
    by (simp add: substr_last_def toClosureJSDevMode_def devModeFile_def
        tsNameToJsName_def replace_ts_js_def truthyString_def testTools_def rootDirOf_def
        typedSettings_def)
  have o: "outdated (testTools [''a.ts'' \<mapsto> 100, ''b.ts'' \<mapsto> 100, ''a.js'' \<mapsto> 200]) None
     (typedSettings None None) ''b.ts'' \<and>
   \<not> outdated (testTools [''a.ts'' \<mapsto> 100, ''b.ts'' \<mapsto> 100, ''a.js'' \<mapsto> 200]) None
     (typedSettings None None) ''a.ts''"
    by (simp add: outdated_def substr_last_def tsNameToJsName_def replace_ts_js_def
        truthyString_def testTools_def)
  from devMode_transpiles_outdated_files [OF h, of None "typedSettings None None" "[]"]
  have "\<exists>jsFiles ds.
          toClosureJSDevMode (testTools [''a.ts'' \<mapsto> 100, ''b.ts'' \<mapsto> 100, ''a.js'' \<mapsto> 200]) None
            [''a.ts'', ''b.ts'', ''c.d.ts''] (typedSettings None None) []
            = Inr (Some (jsFiles, []), ds)"
    by blast
  with e o show ?thesis by blast
qed

section \<open>Typedefs of recursive aliases\<close>

lemma translateTyped_replaceReference:
  "isAlias (map_of syms r) \<Longrightarrow> r \<in> set translating \<Longrightarrow>
   translateTyped syms translating (replaceReference r t) = translateTyped syms translating t"
proof (induction syms translating t rule: translateTyped.induct)
  case (13 syms translating name args)
  show ?case
  proof (cases "name = r")
    case True
    then show ?thesis using 13 by (cases "map_of syms r" rule: isAlias.cases) auto
  next
    case False
    then show ?thesis using 13
      by (auto split: option.splits declared.splits simp: comp_def cong: map_cong)
  qed
next
  case (12 syms translating this params ret)
  then show ?case by (cases this) (auto simp: comp_def cong: map_cong)
qed (auto simp: comp_def cong: map_cong)

lemma translateTyped_render:
  "aliasFree syms t \<Longrightarrow> translateTyped syms translating t = render syms t"
proof (induction syms translating t rule: translateTyped.induct)
  case (13 syms translating name args)
  then show ?case
    by (cases "map_of syms name" rule: isAlias.cases)
       (auto split: declared.splits simp: list_all_iff cong: map_cong)
next
  case (12 syms translating this params ret)
  then show ?case by (cases this) (auto simp: list_all_iff cong: map_cong)
qed (auto simp: list_all_iff cong: map_cong)

lemma translateTyped_shadow:
  "isAlias (map_of syms r) \<Longrightarrow> set tr1 = insert r (set tr2) \<Longrightarrow>
   translateTyped syms tr1 t = translateTyped ((r, Alias TAny) # syms) tr2 t"
proof (induction syms tr1 t arbitrary: tr2 rule: translateTyped.induct)
  case (13 syms translating name args)
  show ?case
  proof (cases "name = r")
    case True
    then show ?thesis using 13(3,4)
      by (cases "map_of syms r" rule: isAlias.cases) auto
  next
    case False
    show ?thesis
    proof (cases "map_of syms name")
      case None
      then show ?thesis using False by simp
    next
      case (Some d)
      show ?thesis
      proof (cases d)
        case (Alias body)
        have "name \<notin> set translating \<Longrightarrow>
              translateTyped syms (name # translating) body
                = translateTyped ((r, Alias TAny) # syms) (name # tr2) body"
          using 13(1) [OF Some Alias _ 13(3), of "name # tr2"] 13(4) by auto
        then show ?thesis using False Some Alias 13(4) by auto
      next
        case (ClassOrInterface nonNull)
        have m: "map (translateTyped syms translating) args
                = map (translateTyped ((r, Alias TAny) # syms) tr2) args"
          using 13(2) [OF Some ClassOrInterface _ 13(3) 13(4)] by (auto cong: map_cong)
        show ?thesis using False Some ClassOrInterface by (simp add: m)
      next
        case TypeParameter
        then show ?thesis using False Some by simp
      next
        case (EnumMember enum)
        then show ?thesis using False Some by simp
      qed
    qed
  qed
next
  case (12 syms translating this params ret)
  have a: "map_option (translateTyped syms translating) this
             = map_option (translateTyped ((r, Alias TAny) # syms) tr2) this"
    using 12(1) 12(4) 12(5) by (cases this) auto
  have b: "map (\<lambda>p. optionalType (fst p) (translateTyped syms translating (snd p))) params
             = map (\<lambda>p. optionalType (fst p)
                      (translateTyped ((r, Alias TAny) # syms) tr2 (snd p))) params"
    using 12(2) 12(4) 12(5) by (auto cong: map_cong)
  have c: "translateTyped syms translating ret
             = translateTyped ((r, Alias TAny) # syms) tr2 ret"
    using 12(3) 12(4) 12(5) by auto
  show ?case by (simp add: a b c)
next
  case (9 syms translating ts)
  have m: "map (translateTyped syms translating) ts
          = map (translateTyped ((r, Alias TAny) # syms) tr2) ts"
    using 9 by (auto cong: map_cong)
  show ?case by (simp add: m)
next
  case (11 syms translating flds)
  have m: "map (\<lambda>f. fst f @ '': '' @
                optionalType (fst (snd f)) (translateTyped syms translating (snd (snd f)))) flds
          = map (\<lambda>f. fst f @ '': '' @ optionalType (fst (snd f))
                   (translateTyped ((r, Alias TAny) # syms) tr2 (snd (snd f)))) flds"
    using 11 by (auto cong: map_cong)
  show ?case by (simp only: translateTyped.simps(11) m)
qed auto


lemma selfContained_aliasFree:
  "selfContained r syms t \<Longrightarrow> aliasFree syms (replaceReference r t)"
proof (induction t)
  case (TFunction this params ret)
  then show ?case by (cases this) (auto simp: list_all_iff)
qed (auto simp: list_all_iff)

text \<open>
  C8 as stated fails in untyped mode: there every translation request is answered \<open>?\<close>,
  so the typedef of the self-referential alias \<open>Recursive\<close> is \<open>{?}\<close> and its definition is
  not unfolded at all.
\<close>

theorem typedef_untyped_is_any:
  "map_of Recursive ''Recursive'' =
     Some (Alias (TObject [(''value'', False, TNumber),
                           (''next'', False, TReference ''Recursive'' [])])) \<and>
   typedefOf True Recursive ''Recursive'' = ''/** @typedef {?} */''"
  by (simp add: typedefOf_def translate_def Recursive_def)

text \<open>
  C8, amended. The translation is a total function, so the typedef of every alias is
  produced. For an alias \<open>r\<close> with definition \<open>body\<close>: in untyped mode the typedef is
  \<open>{?}\<close>. In typed mode the typedef holds the translation of \<open>body\<close> in which \<open>r\<close> itself
  stands for \<open>any\<close>, that is, the definition is entered once and every reference to \<open>r\<close>
  met on the way, also inside the definitions of other aliases, is \<open>?\<close>. When \<open>body\<close>
  refers to no alias other than \<open>r\<close>, the typedef is exactly what the table of section 4.2
  gives for \<open>body\<close> with each reference to \<open>r\<close> replaced by \<open>any\<close>.
\<close>

theorem recursive_alias_typedef:
  assumes "map_of syms r = Some (Alias body)"
  shows "typedefOf True syms r = ''/** @typedef {?} */'' \<and>
         typedefOf False syms r =
           ''/** @typedef {'' @ translateTyped ((r, Alias TAny) # syms) [] body @ ''} */'' \<and>
         (selfContained r syms body \<longrightarrow>
            typedefOf False syms r =
              ''/** @typedef {'' @ render syms (replaceReference r body) @ ''} */'')"
proof -
  have a: "isAlias (map_of syms r)" using assms by simp
  have unfold: "translateTyped syms [] (TReference r []) = translateTyped syms [r] body"
    using assms by simp
  have one: "typedefOf True syms r = ''/** @typedef {?} */''"
    by (simp add: typedefOf_def translate_def)
  have "translateTyped syms [r] body = translateTyped ((r, Alias TAny) # syms) [] body"
    by (rule translateTyped_shadow [OF a]) simp
  with unfold have two: "typedefOf False syms r =
      ''/** @typedef {'' @ translateTyped ((r, Alias TAny) # syms) [] body @ ''} */''"
    by (simp add: typedefOf_def translate_def)
  have three: "typedefOf False syms r =
      ''/** @typedef {'' @ render syms (replaceReference r body) @ ''} */''"
    if sc: "selfContained r syms body"
  proof -
    have "translateTyped syms [r] body = translateTyped syms [r] (replaceReference r body)"
      using translateTyped_replaceReference [OF a, of "[r]" body] by simp
    also have "\<dots> = render syms (replaceReference r body)"
      by (rule translateTyped_render [OF selfContained_aliasFree [OF sc]])
    finally show ?thesis using unfold by (simp add: typedefOf_def translate_def)
  qed
  from one two three show ?thesis by blast
qed

theorem recursive_alias_typedef_witness:
  "typedefOf True Recursive ''Recursive'' = ''/** @typedef {?} */'' \<and>
   typedefOf False Recursive ''Recursive'' = ''/** @typedef {{value: number, next: ?}} */'' \<and>
   typedefOf False Forest ''Tree'' =
     ''/** @typedef {{owner: !Owner, children: (!Array<{trees: !Array<?>}>|undefined), parent: (?|null)}} */''"
proof -
  have h: "map_of Recursive ''Recursive'' =
     Some (Alias (TObject [(''value'', False, TNumber),
                           (''next'', False, TReference ''Recursive'' [])]))"
    by (simp add: Recursive_def)
  have sc: "selfContained ''Recursive'' Recursive
              (TObject [(''value'', False, TNumber), (''next'', False, TReference ''Recursive'' [])])"
    by simp
  have g: "map_of Forest ''Tree'' =
     Some (Alias (TObject [(''owner'', False, TReference ''Owner'' []),
                           (''children'', True, TArray (TReference ''Forest'' [])),
                           (''parent'', False, TUnion [TReference ''Tree'' [], TNull])]))"
    by (simp add: Forest_def)
  from recursive_alias_typedef [OF h] sc
  have r: "typedefOf True Recursive ''Recursive'' = ''/** @typedef {?} */'' \<and>
           typedefOf False Recursive ''Recursive'' = ''/** @typedef {{value: number, next: ?}} */''"
    by (simp add: optionalType_def)
  from recursive_alias_typedef [OF g]
  have "typedefOf False Forest ''Tree'' =
     ''/** @typedef {{owner: !Owner, children: (!Array<{trees: !Array<?>}>|undefined), parent: (?|null)}} */''"
    by (simp add: Forest_def optionalType_def typeArguments_def)
  with r show ?thesis by simp
qed

section \<open>The decorator downleveler\<close>

lemma mem_size_list: "x \<in> set xs \<Longrightarrow> f x < Suc (size_list f xs)"
  by (induction xs) auto

lemma child_size: "c \<in> set (forEachChild n) \<Longrightarrow> size c < size n"
proof (cases n)
  case (IdentifierNode sp t)
  assume "c \<in> set (forEachChild n)"
  then show ?thesis using IdentifierNode by simp
next
  case (CallExpressionNode sp f tas as)
  assume "c \<in> set (forEachChild n)"
  then show ?thesis using CallExpressionNode
    mem_size_list [of c tas size] mem_size_list [of c as size] by auto
next
  case (DecoratorNode d)
  assume "c \<in> set (forEachChild n)"
  then show ?thesis using DecoratorNode by (cases d) simp
next
  case (DeclarationNode k sp ds ms nm tps ps ty b)
  assume c: "c \<in> set (forEachChild n)"
  have d: "\<And>l x. x \<in> set l \<Longrightarrow> size x < Suc (size_list size l)"
    for l :: "decorator list" by (rule mem_size_list)
  show ?thesis using c DeclarationNode
    mem_size_list [of c ms size] mem_size_list [of c tps size]
    mem_size_list [of c ps size] mem_size_list [of c b size]
    by (auto split: option.splits dest: d)
next
  case (OtherNode k sp cs)
  assume "c \<in> set (forEachChild n)"
  then show ?thesis using OtherNode mem_size_list [of c cs size] by auto
qed

lemma fits_size: "size n < k \<Longrightarrow> fits k n"
proof (induction k arbitrary: n)
  case 0
  then show ?case by simp
next
  case (Suc k)
  have "\<And>c. c \<in> set (forEachChild n) \<Longrightarrow> fits k c"
  proof -
    fix c assume "c \<in> set (forEachChild n)"
    then have "size c < size n" by (rule child_size)
    with Suc.prems have "size c < k" by simp
    then show "fits k c" by (rule Suc.IH)
  qed
  then show ?case by (simp add: list_all_iff)
qed

lemma fits_mono: "fits k n \<Longrightarrow> fits (Suc k) n"
proof (induction k arbitrary: n)
  case 0
  then show ?case by simp
next
  case (Suc k)
  have "\<And>c. c \<in> set (forEachChild n) \<Longrightarrow> fits (Suc k) c"
  proof -
    fix c assume "c \<in> set (forEachChild n)"
    with Suc.prems have "fits k c" by (simp add: list_all_iff)
    then show "fits (Suc k) c" by (rule Suc.IH)
  qed
  then show ?case unfolding fits.simps(2) [of "Suc k"] list_all_iff by blast
qed

lemma fits_child: "fits (Suc k) n \<Longrightarrow> c \<in> set (forEachChild n) \<Longrightarrow> fits k c"
  by (simp add: list_all_iff)

lemma fits_within: "within n m \<Longrightarrow> fits k n \<Longrightarrow> fits k m"
proof (induction arbitrary: k rule: within.induct)
  case (within_refl n)
  then show ?case .
next
  case (within_child c n m)
  from within_child.prems obtain k' where k: "k = Suc k'" by (cases k) auto
  with within_child.prems within_child.hyps(1) have "fits k' c" by (simp add: list_all_iff)
  then have "fits k' m" by (rule within_child.IH)
  then show ?case using k by (simp only: fits_mono)
qed

lemma within_trans: "within a b \<Longrightarrow> within b c \<Longrightarrow> within a c"
  by (induction rule: within.induct) (auto intro: within.intros)

lemma decoratorsWithin_child:
  "c \<in> set (forEachChild n) \<Longrightarrow> decoratorsWithin c \<subseteq> decoratorsWithin n"
  by (auto simp: decoratorsWithin_def intro: within_child)

lemma decoratorsWithin_within:
  "within n m \<Longrightarrow> decoratorsWithin m \<subseteq> decoratorsWithin n"
  by (auto simp: decoratorsWithin_def intro: within_trans)

lemma decoratorsInside_subset: "decoratorsInside n \<subseteq> decoratorsWithin n"
  using decoratorsWithin_child by (auto simp: decoratorsInside_def)

lemma visitable_child:
  "visitable (Suc k) A n \<Longrightarrow> c \<in> set (forEachChild n) \<Longrightarrow> visitable k A c"
  using decoratorsWithin_child [of c n] by (auto simp: visitable_def list_all_iff)

lemma visitable_within: "visitable k A n \<Longrightarrow> within n m \<Longrightarrow> visitable k A m"
  using decoratorsWithin_within [of n m] fits_within [of n m k] by (auto simp: visitable_def)

lemma this_cong:
  assumes "currentDecoratorConverter st' = currentDecoratorConverter st"
  shows "this_decorators st' = this_decorators st"
    and "this_ctorParameters st' = this_ctorParameters st"
    and "this_propDecorators st' = this_propDecorators st"
    and "this_importedNames st' = this_importedNames st"
    and "stored st' = stored st"
    and "hasMetadata st' = hasMetadata st"
    and "propHas st' = propHas st"
  using assms
  by (simp_all add: this_decorators_def this_ctorParameters_def this_propDecorators_def
        this_importedNames_def stored_def hasMetadata_def propHas_def fun_eq_iff)

lemma sameVisitor_Rel:
  assumes "sameVisitor st st'"
  shows "Rel e A st st'"
proof -
  from assms have c: "currentDecoratorConverter st' = currentDecoratorConverter st"
    by (simp add: sameVisitor_def)
  note t = this_cong [OF c]
  from assms have o: "\<exists>xs. outputs st' = outputs st @ xs"
    and d: "\<exists>ds. diagnostics st' = diagnostics st @ ds"
    by (simp_all add: sameVisitor_def)
  show ?thesis
    unfolding Rel_def t(1) t(2) t(3) t(5) t(6) t(7) c using o d by simp
qed

lemma sameVisitor_refl: "sameVisitor st st"
  by (simp add: sameVisitor_def)

lemma sameVisitor_emit: "sameVisitor st (emit x st)"
  by (simp add: sameVisitor_def emit_def)

lemma sameVisitor_writeRange: "sameVisitor st (writeRange e a b st)"
  by (simp add: sameVisitor_def emit_def writeRange_def)

lemma sameVisitor_error: "sameVisitor st (error n msg st)"
  by (simp add: sameVisitor_def error_def)

lemma sameVisitor_errorUnimplementedKind: "sameVisitor st (errorUnimplementedKind n w st)"
  by (simp add: errorUnimplementedKind_def sameVisitor_error)

lemma sameVisitor_trans:
  assumes "sameVisitor a b" and "sameVisitor b c"
  shows "sameVisitor a c"
proof -
  from assms obtain xs ys where "outputs b = outputs a @ xs" "outputs c = outputs b @ ys"
    unfolding sameVisitor_def by blast
  then have o: "\<exists>zs. outputs c = outputs a @ zs" by simp
  from assms obtain xs ys where "diagnostics b = diagnostics a @ xs"
    "diagnostics c = diagnostics b @ ys"
    unfolding sameVisitor_def by blast
  then have d: "\<exists>zs. diagnostics c = diagnostics a @ zs" by simp
  from assms o d show ?thesis unfolding sameVisitor_def by simp
qed

lemma Rel_refl: "Rel e A st st"
  by (simp add: sameVisitor_Rel sameVisitor_refl)

lemma Rel_mono:
  assumes "Rel e A st st'" and "A \<subseteq> B"
  shows "Rel e B st st'"
proof -
  from assms have s: "stored st' \<subseteq> stored st \<union> B"
    unfolding Rel_def by blast
  from assms have h: "hasMetadata st' \<longrightarrow> hasMetadata st \<or> (\<exists>d \<in> B. shouldLower e d)"
    unfolding Rel_def by blast
  from assms(1) s h show ?thesis unfolding Rel_def by simp
qed

lemma Rel_trans:
  assumes "Rel e A s1 s2" and "Rel e A s2 s3"
  shows "Rel e A s1 s3"
proof -
  from assms obtain xs ys where "outputs s2 = outputs s1 @ xs" "outputs s3 = outputs s2 @ ys"
    unfolding Rel_def by blast
  then have o: "\<exists>zs. outputs s3 = outputs s1 @ zs" by simp
  from assms obtain xs ys where "diagnostics s2 = diagnostics s1 @ xs"
    "diagnostics s3 = diagnostics s2 @ ys"
    unfolding Rel_def by blast
  then have d: "\<exists>zs. diagnostics s3 = diagnostics s1 @ zs" by simp
  from assms have c: "(currentDecoratorConverter s3 = None) = (currentDecoratorConverter s1 = None)"
    unfolding Rel_def by simp
  from assms have td: "this_decorators s3 = this_decorators s1"
    unfolding Rel_def by simp
  from assms have tc: "this_ctorParameters s1 \<noteq> None \<longrightarrow> this_ctorParameters s3 \<noteq> None"
    unfolding Rel_def by simp
  from assms have ph: "\<forall>name. propHas s1 name \<longrightarrow> propHas s3 name"
    unfolding Rel_def by simp
  from assms have s12: "stored s2 \<subseteq> stored s1 \<union> A" and s23: "stored s3 \<subseteq> stored s2 \<union> A"
    unfolding Rel_def by simp_all
  then have s: "stored s3 \<subseteq> stored s1 \<union> A" by blast
  from assms have h12: "hasMetadata s2 \<longrightarrow> hasMetadata s1 \<or> (\<exists>d \<in> A. shouldLower e d)"
    and h23: "hasMetadata s3 \<longrightarrow> hasMetadata s2 \<or> (\<exists>d \<in> A. shouldLower e d)"
    unfolding Rel_def by simp_all
  then have h: "hasMetadata s3 \<longrightarrow> hasMetadata s1 \<or> (\<exists>d \<in> A. shouldLower e d)" by blast
  show ?thesis unfolding Rel_def using o d c td tc ph s h by simp
qed

lemma Rel_sameVisitor: "Rel e A s1 s2 \<Longrightarrow> sameVisitor s2 s3 \<Longrightarrow> Rel e A s1 s3"
  by (erule Rel_trans) (rule sameVisitor_Rel)

lemma sameVisitor_Rel_trans: "sameVisitor s1 s2 \<Longrightarrow> Rel e A s2 s3 \<Longrightarrow> Rel e A s1 s3"
  by (rule Rel_trans [OF sameVisitor_Rel])

lemma Rel_stored:
  assumes "Rel e A st st'" and "stored st \<subseteq> A"
  shows "stored st' \<subseteq> A"
proof -
  from assms(1) have "stored st' \<subseteq> stored st \<union> A" unfolding Rel_def by simp
  with assms(2) show ?thesis by blast
qed

lemma decoratorsOf_inside:
  "decoratorsOf n = Some ds \<Longrightarrow> d \<in> set ds \<Longrightarrow> d \<in> decoratorsInside n"
proof (cases n)
  case (DeclarationNode k sp dso ms nm tps ps ty b)
  assume "decoratorsOf n = Some ds" and "d \<in> set ds"
  with DeclarationNode have "DecoratorNode d \<in> set (forEachChild n)" by simp
  moreover have "d \<in> decoratorsWithin (DecoratorNode d)"
    by (simp add: decoratorsWithin_def within_refl)
  ultimately show ?thesis unfolding decoratorsInside_def by blast
qed simp_all

lemma parameters_child: "p \<in> set (parameters n) \<Longrightarrow> p \<in> set (forEachChild n)"
  by (cases n) simp_all

lemma decoratorsInside_child:
  "c \<in> set (forEachChild n) \<Longrightarrow> decoratorsInside c \<subseteq> decoratorsInside n"
  using decoratorsInside_subset [of c] unfolding decoratorsInside_def by blast

lemma decoratorsToLower_set:
  "d \<in> set (decoratorsToLower e n) \<Longrightarrow> d \<in> decoratorsInside n \<and> shouldLower e d"
proof (cases "decoratorsOf n")
  case None
  assume "d \<in> set (decoratorsToLower e n)"
  with None show ?thesis by (simp add: decoratorsToLower_def)
next
  case (Some ds)
  assume "d \<in> set (decoratorsToLower e n)"
  with Some have "d \<in> set ds" and "shouldLower e d" by (simp_all add: decoratorsToLower_def)
  with Some show ?thesis using decoratorsOf_inside by blast
qed

lemma gatherParameters_facts:
  "gatherParameters e params acc has = (ps, has') \<Longrightarrow>
     ctorDecorators ps \<subseteq> ctorDecorators acc \<union> (\<Union>p \<in> set params. decoratorsInside p) \<and>
     (has' \<longrightarrow> has \<or> (\<exists>p \<in> set params. \<exists>d \<in> decoratorsInside p. shouldLower e d))"
proof (induction params arbitrary: acc has)
  case Nil
  then show ?case by simp
next
  case (Cons p params)
  define decos where "decos = (case decoratorsOf p of None \<Rightarrow> None
                                | Some ds \<Rightarrow> Some (decoratorsToLower e p))"
  define has1 where "has1 = (case decos of None \<Rightarrow> has | Some l \<Rightarrow> length l > 0)"
  define paramCtor where "paramCtor = (case typeOf p of
                         None \<Rightarrow> None
                       | Some ty \<Rightarrow>
                           (case getSymbolAtType e ty of
                              None \<Rightarrow> None
                            | Some tsym \<Rightarrow>
                                if flags tsym AND SymbolFlags_Value e \<noteq> 0
                                then Some (tsym, symbolToString e ty tsym) else None))"
  define entry where "entry = (if paramCtor \<noteq> None \<or> decos \<noteq> None then Some (paramCtor, decos) else None)"
  from Cons.prems have rec: "gatherParameters e params (acc @ [entry]) has1 = (ps, has')"
    unfolding gatherParameters.simps Let_def decos_def has1_def paramCtor_def entry_def .
  note ih = Cons.IH [OF rec]
  have a: "ctorDecorators (acc @ [entry]) \<subseteq> ctorDecorators acc \<union> decoratorsInside p"
  proof
    fix d assume "d \<in> ctorDecorators (acc @ [entry])"
    then obtain c ds where m: "Some (c, Some ds) \<in> set (acc @ [entry])" and d: "d \<in> set ds"
      unfolding ctorDecorators_def by blast
    show "d \<in> ctorDecorators acc \<union> decoratorsInside p"
    proof (cases "Some (c, Some ds) \<in> set acc")
      case True
      with d show ?thesis unfolding ctorDecorators_def by blast
    next
      case False
      with m have "entry = Some (c, Some ds)" by simp
      then have "decos = Some ds" by (simp add: entry_def split: if_splits)
      then have "ds = decoratorsToLower e p" by (simp add: decos_def split: option.splits)
      with d show ?thesis using decoratorsToLower_set by blast
    qed
  qed
  have h: "has1 \<longrightarrow> has \<or> (\<exists>d \<in> decoratorsInside p. shouldLower e d)"
  proof
    assume h1: has1
    show "has \<or> (\<exists>d \<in> decoratorsInside p. shouldLower e d)"
    proof (cases decos)
      case None
      with h1 show ?thesis by (simp add: has1_def)
    next
      case (Some l)
      with h1 have "l \<noteq> []" by (simp add: has1_def)
      then obtain d where "d \<in> set l" by (cases l) auto
      moreover from Some have "l = decoratorsToLower e p"
        by (simp add: decos_def split: option.splits)
      ultimately show ?thesis using decoratorsToLower_set by blast
    qed
  qed
  from ih a have "ctorDecorators ps \<subseteq> ctorDecorators acc \<union> (\<Union>p \<in> set (p # params). decoratorsInside p)"
    by auto
  moreover from ih h have "has' \<longrightarrow> has \<or> (\<exists>p \<in> set (p # params). \<exists>d \<in> decoratorsInside p. shouldLower e d)"
    by auto
  ultimately show ?case by simp
qed

lemma RelV_refl: "RelV e A v v"
  by (simp add: RelV_def)

lemma RelV_Rel:
  assumes "currentDecoratorConverter st = Some v"
      and "currentDecoratorConverter st' = Some v'"
      and "RelV e A v v'"
      and "\<exists>xs. outputs st' = outputs st @ xs"
      and "\<exists>ds. diagnostics st' = diagnostics st @ ds"
  shows "Rel e A st st'"
  using assms
  unfolding Rel_def RelV_def this_decorators_def this_ctorParameters_def this_propDecorators_def
    stored_def hasMetadata_def propHas_def hasMetadataV_def propHasV_def
  by simp

lemma map_of_map_set: "map_of (map_set k x m) = (map_of m)(k \<mapsto> x)"
proof (induction m)
  case Nil
  then show ?case by simp
next
  case (Cons p m)
  obtain k' y where p: "p = (k', y)" by (cases p)
  show ?case using Cons.IH p by (auto simp: fun_eq_iff)
qed

lemma gatherConstructor_RelV: "RelV e (decoratorsInside ctor) v (gatherConstructor e ctor v)"
proof -
  obtain ps has where g: "gatherParameters e (parameters ctor) [] False = (ps, has)"
    by (cases "gatherParameters e (parameters ctor) [] False")
  note f = gatherParameters_facts [OF g]
  have inside: "(\<Union>p \<in> set (parameters ctor). decoratorsInside p) \<subseteq> decoratorsInside ctor"
    using decoratorsInside_child parameters_child by blast
  have "ctorDecorators [] = {}" by (simp add: ctorDecorators_def)
  with f inside have c: "ctorDecorators ps \<subseteq> decoratorsInside ctor"
    by blast
  from f inside have h: "has \<longrightarrow> (\<exists>d \<in> decoratorsInside ctor. shouldLower e d)"
    by blast
  show ?thesis
  proof (cases "decorators v \<noteq> None \<or> has")
    case False
    then show ?thesis using g by (simp add: gatherConstructor_def RelV_refl)
  next
    case True
    then have v': "gatherConstructor e ctor v = v\<lparr>ctorParameters := Some ps\<rparr>"
      using g by (simp add: gatherConstructor_def)
    have s: "storedV (v\<lparr>ctorParameters := Some ps\<rparr>) \<subseteq> storedV v \<union> decoratorsInside ctor"
      using c by (auto simp: storedV_def split: option.splits)
    have m: "hasMetadataV v \<or> (\<exists>d \<in> decoratorsInside ctor. shouldLower e d)"
      using True h by (auto simp: hasMetadataV_def)
    show ?thesis unfolding v' RelV_def using s m by (simp add: propHasV_def)
  qed
qed

lemma in_storedV_prop:
  "propDecorators v = Some m \<Longrightarrow> (k, ds) \<in> set m \<Longrightarrow> x \<in> set ds \<Longrightarrow> x \<in> storedV v"
  unfolding storedV_def by simp blast

lemma gatherMethodOrProperty_RelV:
  assumes "gatherMethodOrProperty e method v st = (v', st')"
  shows "RelV e (decoratorsInside method) v v' \<and> sameVisitor st st'"
proof (cases "decoratorsOf method")
  case None
  with assms show ?thesis by (simp add: gatherMethodOrProperty_def RelV_refl sameVisitor_refl)
next
  case (Some ds)
  show ?thesis
  proof (cases "\<exists>sp name. nameOf method = Some (IdentifierNode sp name)")
    case False
    with assms Some have "v' = v" and "st' = error method ''cannot process decorators on strangely named method'' st"
      by (auto simp: gatherMethodOrProperty_def split: option.splits node.splits)
    then show ?thesis by (simp add: RelV_refl sameVisitor_error)
  next
    case True
    then obtain sp name where n: "nameOf method = Some (IdentifierNode sp name)" by blast
    show ?thesis
    proof (cases "decoratorsToLower e method = []")
      case True
      with assms Some n show ?thesis
        by (simp add: gatherMethodOrProperty_def RelV_refl sameVisitor_refl)
    next
      case False
      define m where "m = (case propDecorators v of None \<Rightarrow> [] | Some m \<Rightarrow> m)"
      from assms Some n False have v': "v' = v\<lparr>propDecorators :=
          Some (map_set name (decoratorsToLower e method) m)\<rparr>" and st': "st' = st"
        by (auto simp: gatherMethodOrProperty_def m_def Let_def)
      from False obtain d where d: "d \<in> set (decoratorsToLower e method)"
        by (cases "decoratorsToLower e method") auto
      then have dl: "d \<in> decoratorsInside method \<and> shouldLower e d"
        by (rule decoratorsToLower_set)
      have s: "storedV v' \<subseteq> storedV v \<union> decoratorsInside method"
      proof
        fix x assume "x \<in> storedV v'"
        then consider "x \<in> storedV v"
          | k ds where "(k, ds) \<in> set (map_set name (decoratorsToLower e method) m)" "x \<in> set ds"
          unfolding v' storedV_def by (auto split: option.splits)
        then show "x \<in> storedV v \<union> decoratorsInside method"
        proof cases
          case 1
          then show ?thesis by simp
        next
          case 2
          from map_set_entries [OF 2(1)] show ?thesis
          proof
            assume "k = name \<and> ds = decoratorsToLower e method"
            with 2(2) show ?thesis using decoratorsToLower_set by blast
          next
            assume km: "(k, ds) \<in> set m"
            then obtain m' where "propDecorators v = Some m'" and "m' = m"
              unfolding m_def by (cases "propDecorators v") auto
            with km 2(2) have "x \<in> storedV v"
              by (metis in_storedV_prop)
            then show ?thesis by simp
          qed
        qed
      qed
      have p: "\<forall>nm. propHasV v nm \<longrightarrow> propHasV v' nm"
        unfolding propHasV_def v' by (auto simp: map_of_map_set m_def split: option.splits)
      show ?thesis unfolding RelV_def st'
        using s p dl by (auto simp: v' sameVisitor_refl)
    qed
  qed
qed

lemma beforeProcessNode_RelV:
  assumes "beforeProcessNode e n v st = (v', st')"
  shows "RelV e (decoratorsInside n) v v' \<and> sameVisitor st st'"
proof (cases n)
  case (DeclarationNode k sp ds ms nm tps ps ty b)
  show ?thesis
  proof (cases "k = Constructor")
    case True
    with assms DeclarationNode have "v' = gatherConstructor e n v" and "st' = st" by simp_all
    then show ?thesis by (simp add: gatherConstructor_RelV sameVisitor_refl)
  next
    case False
    show ?thesis
    proof (cases "k = PropertyDeclaration \<or> k = SetAccessor \<or> k = GetAccessor \<or> k = MethodDeclaration")
      case True
      with assms DeclarationNode False have "gatherMethodOrProperty e n v st = (v', st')" by auto
      then show ?thesis by (rule gatherMethodOrProperty_RelV)
    next
      case no: False
      with assms DeclarationNode False have "v' = v" and "st' = st" by simp_all
      then show ?thesis by (simp add: RelV_refl sameVisitor_refl)
    qed
  qed
qed (use assms in \<open>simp_all add: RelV_refl sameVisitor_refl\<close>)

lemma runBeforeProcessNode_Rel: "Rel e (decoratorsInside n) st (runBeforeProcessNode e n st)"
proof (cases "currentDecoratorConverter st")
  case None
  then show ?thesis by (simp add: runBeforeProcessNode_def Rel_refl)
next
  case (Some v)
  obtain v' st' where b: "beforeProcessNode e n v st = (v', st')"
    by (cases "beforeProcessNode e n v st")
  note r = beforeProcessNode_RelV [OF b]
  from Some b have eq: "runBeforeProcessNode e n st = st'\<lparr>currentDecoratorConverter := Some v'\<rparr>"
    by (simp add: runBeforeProcessNode_def)
  from r have o: "\<exists>xs. outputs (st'\<lparr>currentDecoratorConverter := Some v'\<rparr>) = outputs st @ xs"
    and d: "\<exists>ds. diagnostics (st'\<lparr>currentDecoratorConverter := Some v'\<rparr>) = diagnostics st @ ds"
    by (simp_all add: sameVisitor_def)
  show ?thesis unfolding eq
    by (rule RelV_Rel [OF Some _ conjunct1 [OF r] o d]) simp
qed

lemma okV_visit:
  assumes "okV e k V" and "visitable k A n"
  shows "\<exists>st'. V n st = Some st' \<and> Rel e A st st'"
proof -
  from assms have "fits k n" and sub: "decoratorsWithin n \<subseteq> A" by (simp_all add: visitable_def)
  with assms(1) obtain st' where v: "V n st = Some st'" and r: "Rel e (decoratorsWithin n) st st'"
    unfolding okV_def by blast
  from r sub have "Rel e A st st'" by (rule Rel_mono)
  with v show ?thesis by blast
qed

lemma writeChildren_ok:
  assumes "okV e k V"
  shows "\<forall>c \<in> set cs. visitable k A c \<Longrightarrow>
         \<exists>pos' st'. writeChildren V e pos cs st = Some (pos', st') \<and> Rel e A st st'"
proof (induction cs arbitrary: pos st)
  case Nil
  then show ?case by (simp add: Rel_refl)
next
  case (Cons c cs)
  from Cons.prems have vc: "visitable k A c" by simp
  from okV_visit [OF assms vc] obtain st1 where
    v: "V c (writeRange e pos (getFullStart c) st) = Some st1" and
    r1: "Rel e A (writeRange e pos (getFullStart c) st) st1"
    by blast
  from sameVisitor_writeRange r1 have r01: "Rel e A st st1" by (rule sameVisitor_Rel_trans)
  from Cons.prems have "\<forall>c \<in> set cs. visitable k A c" by simp
  from Cons.IH [OF this] obtain pos' st' where
    w: "writeChildren V e (getEnd c) cs st1 = Some (pos', st')" and r2: "Rel e A st1 st'"
    by blast
  from r01 r2 have "Rel e A st st'" by (rule Rel_trans)
  with v w show ?case by simp
qed

lemma writeNodeFrom_ok:
  assumes "okV e k V" and "\<forall>c \<in> set (forEachChild n). visitable k A c"
  shows "\<exists>st'. writeNodeFrom V e n pos end st = Some st' \<and> Rel e A st st'"
proof -
  from writeChildren_ok [OF assms] obtain pos' st1 where
    w: "writeChildren V e pos (forEachChild n) st = Some (pos', st1)" and r: "Rel e A st st1"
    by blast
  from r sameVisitor_writeRange have "Rel e A st (writeRange e pos' end st1)"
    by (rule Rel_sameVisitor)
  with w show ?thesis by (simp add: writeNodeFrom_def)
qed

lemma visitable_children:
  assumes "visitable k A n"
  shows "\<forall>c \<in> set (forEachChild n). visitable k A c"
proof
  fix c assume "c \<in> set (forEachChild n)"
  then have "within n c" by (rule within_child) (rule within_refl)
  with assms show "visitable k A c" by (rule visitable_within)
qed

lemma Rel_outputs: "Rel e A st st' \<Longrightarrow> \<exists>xs. outputs st' = outputs st @ xs"
  by (simp add: Rel_def)

lemma writeNodeFrom_leaf:
  "forEachChild n = [] \<Longrightarrow> writeNodeFrom V e n pos end st = Some (writeRange e pos end st)"
  by (simp add: writeNodeFrom_def)

lemma outputs_emit: "outputs (emit x st) = outputs st @ [x]"
  by (simp add: emit_def)

lemma outputs_writeRange: "outputs (writeRange e a b st) = outputs st @ [slice (fileText e) a b]"
  by (simp add: writeRange_def emit_def)

text \<open>What \<open>writeArguments\<close> writes: one piece list per argument, each followed by a comma.\<close>

lemma writeArguments_ok:
  assumes "okV e k V"
  shows "\<forall>a \<in> set args. visitable k A a \<Longrightarrow>
         \<exists>st' outs. writeArguments V e args st = Some st' \<and> Rel e A st st' \<and>
           length outs = length args \<and>
           outputs st' = outputs st @ concat (map (\<lambda>out. out @ ['', '']) outs) \<and>
           (\<forall>i < length args. forEachChild (args ! i) = [] \<longrightarrow>
              outs ! i = [slice (fileText e) (getStart (args ! i)) (getEnd (args ! i))]) \<and>
           list_all2 (argumentOut V e) args outs"
proof (induction args arbitrary: st)
  case Nil
  then show ?case by (simp add: Rel_refl)
next
  case (Cons a args)
  from Cons.prems have va: "visitable k A a" by simp
  from writeNodeFrom_ok [OF assms visitable_children [OF va]] obtain st1 where
    w: "writeNodeFrom V e a (getStart a) (getEnd a) st = Some st1" and r1: "Rel e A st st1"
    by blast
  from Rel_outputs [OF r1] obtain out where out: "outputs st1 = outputs st @ out" by blast
  have leaf: "forEachChild a = [] \<longrightarrow> out = [slice (fileText e) (getStart a) (getEnd a)]"
  proof
    assume "forEachChild a = []"
    from writeNodeFrom_leaf [OF this] w have "st1 = writeRange e (getStart a) (getEnd a) st"
      by simp
    with out show "out = [slice (fileText e) (getStart a) (getEnd a)]"
      by (simp add: outputs_writeRange)
  qed
  from r1 sameVisitor_emit have r1': "Rel e A st (emit '', '' st1)" by (rule Rel_sameVisitor)
  from Cons.prems have "\<forall>a \<in> set args. visitable k A a" by simp
  from Cons.IH [OF this] obtain st' outs where
    ih: "writeArguments V e args (emit '', '' st1) = Some st'"
        "Rel e A (emit '', '' st1) st'"
        "length outs = length args"
        "outputs st' = outputs (emit '', '' st1) @ concat (map (\<lambda>out. out @ ['', '']) outs)"
        "\<forall>i < length args. forEachChild (args ! i) = [] \<longrightarrow>
              outs ! i = [slice (fileText e) (getStart (args ! i)) (getEnd (args ! i))]"
        "list_all2 (argumentOut V e) args outs"
    by blast
  have ao: "argumentOut V e a out" unfolding argumentOut_def using w out by blast
  have "writeArguments V e (a # args) st = Some st'" using w ih(1) by simp
  moreover have "Rel e A st st'" using r1' ih(2) by (rule Rel_trans)
  moreover have "length (out # outs) = length (a # args)" using ih(3) by simp
  moreover have "outputs st' = outputs st @ concat (map (\<lambda>out. out @ ['', '']) (out # outs))"
    using ih(4) out by (simp add: outputs_emit)
  moreover have "\<forall>i < length (a # args). forEachChild ((a # args) ! i) = [] \<longrightarrow>
      (out # outs) ! i = [slice (fileText e) (getStart ((a # args) ! i)) (getEnd ((a # args) ! i))]"
  proof (intro allI impI)
    fix i assume i: "i < length (a # args)" and l: "forEachChild ((a # args) ! i) = []"
    show "(out # outs) ! i = [slice (fileText e) (getStart ((a # args) ! i)) (getEnd ((a # args) ! i))]"
    proof (cases i)
      case 0
      with l leaf show ?thesis by simp
    next
      case (Suc j)
      with i l ih(5) show ?thesis by simp
    qed
  qed
  moreover have "list_all2 (argumentOut V e) (a # args) (out # outs)" using ao ih(6) by simp
  ultimately show ?case by blast
qed

lemma emitDecorator_call:
  assumes "okV e k V" and "visitable k A (expression d)"
      and x: "expression d = CallExpressionNode sp callee tas args"
  shows "\<exists>st' stc calleeOut outs.
           V callee (emit ''{ type: '' st) = Some stc \<and>
           outputs stc = outputs st @ [''{ type: ''] @ calleeOut \<and>
           emitDecorator V e d st = Some st' \<and> Rel e A st st' \<and>
           length outs = length args \<and>
           outputs st' = outputs st @ [''{ type: ''] @ calleeOut @
             (if args = [] then []
              else ['', args: [''] @ concat (map (\<lambda>out. out @ ['', '']) outs) @ ['']'']) @
             ['' }''] \<and>
           (\<forall>i < length args. forEachChild (args ! i) = [] \<longrightarrow>
              outs ! i = [slice (fileText e) (getStart (args ! i)) (getEnd (args ! i))]) \<and>
           list_all2 (argumentOut V e) args outs"
proof -
  have ch: "\<forall>c \<in> set (forEachChild (expression d)). visitable k A c"
    by (rule visitable_children [OF assms(2)])
  then have vcallee: "visitable k A callee" and vargs: "\<forall>a \<in> set args. visitable k A a"
    unfolding x by simp_all
  from okV_visit [OF assms(1) vcallee] obtain stc where
    vc: "V callee (emit ''{ type: '' st) = Some stc" and rc: "Rel e A (emit ''{ type: '' st) stc"
    by blast
  from Rel_outputs [OF rc] obtain calleeOut where
    oc: "outputs stc = outputs st @ [''{ type: ''] @ calleeOut"
    by (auto simp: outputs_emit)
  from sameVisitor_emit rc have r0c: "Rel e A st stc" by (rule sameVisitor_Rel_trans)
  show ?thesis
  proof (cases "args = []")
    case True
    then have "emitDecorator V e d st = Some (emit '' }'' stc)"
      using vc x by (simp add: emitDecorator_def)
    moreover have "Rel e A st (emit '' }'' stc)"
      using r0c sameVisitor_emit by (rule Rel_sameVisitor)
    moreover have "outputs (emit '' }'' stc) = outputs st @ [''{ type: ''] @ calleeOut @ ['' }'']"
      using oc by (simp add: outputs_emit)
    ultimately show ?thesis using True vc oc by auto
  next
    case False
    from writeArguments_ok [OF assms(1) vargs, of "emit '', args: ['' stc"] obtain sta outs where
      wa: "writeArguments V e args (emit '', args: ['' stc) = Some sta" and
      ra: "Rel e A (emit '', args: ['' stc) sta" and
      la: "length outs = length args" and
      oa: "outputs sta = outputs (emit '', args: ['' stc) @ concat (map (\<lambda>out. out @ ['', '']) outs)" and
      lf: "\<forall>i < length args. forEachChild (args ! i) = [] \<longrightarrow>
              outs ! i = [slice (fileText e) (getStart (args ! i)) (getEnd (args ! i))]" and
      ao: "list_all2 (argumentOut V e) args outs"
      by blast
    have em: "emitDecorator V e d st = Some (emit '' }'' (emit '']'' sta))"
      using vc wa x False by (simp add: emitDecorator_def)
    have "Rel e A stc sta" using sameVisitor_emit ra by (rule sameVisitor_Rel_trans)
    with r0c have "Rel e A st sta" by (rule Rel_trans)
    then have "Rel e A st (emit '']'' sta)" using sameVisitor_emit by (rule Rel_sameVisitor)
    then have r: "Rel e A st (emit '' }'' (emit '']'' sta))"
      using sameVisitor_emit by (rule Rel_sameVisitor)
    have o: "outputs (emit '' }'' (emit '']'' sta)) =
             outputs st @ [''{ type: ''] @ calleeOut @
               ['', args: [''] @ concat (map (\<lambda>out. out @ ['', '']) outs) @ ['']''] @ ['' }'']"
      using oa oc by (simp add: outputs_emit)
    from vc oc em r la o lf ao False show ?thesis by auto
  qed
qed

lemma sameVisitor_unimplemented:
  "sameVisitor st (emit a (emit b (errorUnimplementedKind n w (emit c st))))"
  by (simp add: sameVisitor_def emit_def errorUnimplementedKind_def error_def)

lemma emitDecorator_ok:
  assumes "okV e k V" and "visitable k A (expression d)"
  shows "\<exists>st' mid. emitDecorator V e d st = Some st' \<and> Rel e A st st' \<and>
           outputs st' = outputs st @ ''{ type: '' # mid @ ['' }'']"
proof (cases "expression d")
  case (IdentifierNode sp t)
  from okV_visit [OF assms] obtain st2 where
    v: "V (expression d) (emit ''{ type: '' st) = Some st2" and
    r: "Rel e A (emit ''{ type: '' st) st2"
    by blast
  from Rel_outputs [OF r] obtain mid where o: "outputs st2 = outputs st @ ''{ type: '' # mid"
    by (auto simp: outputs_emit)
  have "emitDecorator V e d st = Some (emit '' }'' st2)"
    using v IdentifierNode by (simp add: emitDecorator_def)
  moreover have "Rel e A st (emit '' }'' st2)"
    using sameVisitor_Rel_trans [OF sameVisitor_emit r] sameVisitor_emit by (rule Rel_sameVisitor)
  moreover have "outputs (emit '' }'' st2) = outputs st @ ''{ type: '' # mid @ ['' }'']"
    using o by (simp add: outputs_emit)
  ultimately show ?thesis by blast
next
  case (CallExpressionNode sp callee tas args)
  from emitDecorator_call [OF assms this, of st] obtain st' calleeOut outs where
    "emitDecorator V e d st = Some st'" "Rel e A st st'"
    "outputs st' = outputs st @ [''{ type: ''] @ calleeOut @
             (if args = [] then []
              else ['', args: [''] @ concat (map (\<lambda>out. out @ ['', '']) outs) @ ['']'']) @
             ['' }'']"
    by blast
  then show ?thesis by auto
next
  case (DecoratorNode d')
  let ?st' = "emit '' }'' (emit ''undefined''
                (errorUnimplementedKind (expression d) ''gathering metadata'' (emit ''{ type: '' st)))"
  have "emitDecorator V e d st = Some ?st'"
    using DecoratorNode by (simp add: emitDecorator_def)
  moreover have "sameVisitor st ?st'"
    by (rule sameVisitor_unimplemented)
  moreover have "outputs ?st' = outputs st @ ''{ type: '' # [''undefined''] @ ['' }'']"
    by (simp add: outputs_emit errorUnimplementedKind_def error_def)
  ultimately show ?thesis using sameVisitor_Rel by blast
next
  case (DeclarationNode dk sp ds ms nm tps ps ty b)
  let ?st' = "emit '' }'' (emit ''undefined''
                (errorUnimplementedKind (expression d) ''gathering metadata'' (emit ''{ type: '' st)))"
  have "emitDecorator V e d st = Some ?st'"
    using DeclarationNode by (simp add: emitDecorator_def)
  moreover have "sameVisitor st ?st'"
    by (rule sameVisitor_unimplemented)
  moreover have "outputs ?st' = outputs st @ ''{ type: '' # [''undefined''] @ ['' }'']"
    by (simp add: outputs_emit errorUnimplementedKind_def error_def)
  ultimately show ?thesis using sameVisitor_Rel by blast
next
  case (OtherNode kn sp cs)
  let ?st' = "emit '' }'' (emit ''undefined''
                (errorUnimplementedKind (expression d) ''gathering metadata'' (emit ''{ type: '' st)))"
  have "emitDecorator V e d st = Some ?st'"
    using OtherNode by (simp add: emitDecorator_def)
  moreover have "sameVisitor st ?st'"
    by (rule sameVisitor_unimplemented)
  moreover have "outputs ?st' = outputs st @ ''{ type: '' # [''undefined''] @ ['' }'']"
    by (simp add: outputs_emit errorUnimplementedKind_def error_def)
  ultimately show ?thesis using sameVisitor_Rel by blast
qed

lemma emitDecorators_ok:
  assumes "okV e k V"
  shows "\<forall>d \<in> set ds. visitable k A (expression d) \<Longrightarrow>
         \<exists>st' entries. emitDecorators V e sep ds st = Some st' \<and> Rel e A st st' \<and>
           length entries = length ds \<and>
           outputs st' = outputs st @ concat (map (\<lambda>entry. entry @ [sep]) entries) \<and>
           (\<forall>entry \<in> set entries. \<exists>mid. entry = ''{ type: '' # mid @ ['' }'']) \<and>
           list_all2 (entryOf V e) ds entries"
proof (induction ds arbitrary: st)
  case Nil
  then show ?case by (simp add: Rel_refl)
next
  case (Cons d ds)
  from Cons.prems have vd: "visitable k A (expression d)" by simp
  from emitDecorator_ok [OF assms vd, of st] obtain st1 mid where
    e1: "emitDecorator V e d st = Some st1" and r1: "Rel e A st st1" and
    o1: "outputs st1 = outputs st @ ''{ type: '' # mid @ ['' }'']"
    by blast
  from r1 sameVisitor_emit have r1': "Rel e A st (emit sep st1)" by (rule Rel_sameVisitor)
  from Cons.prems have "\<forall>d \<in> set ds. visitable k A (expression d)" by simp
  from Cons.IH [OF this, of "emit sep st1"] obtain st' entries where
    ih: "emitDecorators V e sep ds (emit sep st1) = Some st'"
        "Rel e A (emit sep st1) st'"
        "length entries = length ds"
        "outputs st' = outputs (emit sep st1) @ concat (map (\<lambda>entry. entry @ [sep]) entries)"
        "\<forall>entry \<in> set entries. \<exists>mid. entry = ''{ type: '' # mid @ ['' }'']"
        "list_all2 (entryOf V e) ds entries"
    by blast
  let ?en = "''{ type: '' # mid @ ['' }'']"
  have eo: "entryOf V e d ?en" unfolding entryOf_def using e1 o1 by blast
  have "emitDecorators V e sep (d # ds) st = Some st'" using e1 ih(1) by simp
  moreover have "Rel e A st st'" using r1' ih(2) by (rule Rel_trans)
  moreover have "length (?en # entries) = length (d # ds)" using ih(3) by simp
  moreover have "outputs st' = outputs st @ concat (map (\<lambda>entry. entry @ [sep]) (?en # entries))"
    using ih(4) o1 by (simp add: outputs_emit)
  moreover have "\<forall>entry \<in> set (?en # entries). \<exists>mid. entry = ''{ type: '' # mid @ ['' }'']"
    using ih(5) by auto
  moreover have "list_all2 (entryOf V e) (d # ds) (?en # entries)" using eo ih(6) by simp
  ultimately show ?case by blast
qed

lemma ctorDecorators_Cons_None: "ctorDecorators (None # ps) = ctorDecorators ps"
  by (auto simp: ctorDecorators_def)

lemma ctorDecorators_Cons_Some:
  "ctorDecorators (Some (c, decos) # ps) =
     (case decos of None \<Rightarrow> {} | Some ds \<Rightarrow> set ds) \<union> ctorDecorators ps"
  by (auto simp: ctorDecorators_def split: option.splits)

lemma sameVisitor_ctorType:
  "sameVisitor st
     (emit '', '' (case ctor of
                   None \<Rightarrow> emit ''undefined'' (emit ''{type: '' st)
                 | Some (typeSymbol, typeStr) \<Rightarrow>
                     (case getValueIdentifierForType e (emit ''{type: '' st) typeSymbol of
                        Some emitNode \<Rightarrow> writeRange e (getStart emitNode) (getEnd emitNode) (emit ''{type: '' st)
                      | None \<Rightarrow> emit typeStr (emit ''{type: '' st))))"
  by (auto simp: sameVisitor_def emit_def writeRange_def split: option.splits)

lemma emitCtorParameters_ok:
  assumes "okV e k V"
  shows "\<forall>d \<in> ctorDecorators ps. visitable k A (expression d) \<Longrightarrow>
         \<exists>st'. emitCtorParameters V e ps st = Some st' \<and> Rel e A st st'"
proof (induction ps arbitrary: st)
  case Nil
  then show ?case by (simp add: Rel_refl)
next
  case (Cons p ps)
  show ?case
  proof (cases p)
    case None
    from Cons.prems have "\<forall>d \<in> ctorDecorators ps. visitable k A (expression d)"
      by (simp add: None ctorDecorators_Cons_None)
    from Cons.IH [OF this, of "emit ''null,\<newline>'' st"] obtain st' where
      "emitCtorParameters V e ps (emit ''null,\<newline>'' st) = Some st'"
      "Rel e A (emit ''null,\<newline>'' st) st'"
      by blast
    then show ?thesis using None sameVisitor_Rel_trans [OF sameVisitor_emit] by auto
  next
    case (Some cd)
    obtain ctor decos where cd: "cd = (ctor, decos)" by (cases cd)
    define st3 where "st3 = emit '', '' (case ctor of
                   None \<Rightarrow> emit ''undefined'' (emit ''{type: '' st)
                 | Some (typeSymbol, typeStr) \<Rightarrow>
                     (case getValueIdentifierForType e (emit ''{type: '' st) typeSymbol of
                        Some emitNode \<Rightarrow> writeRange e (getStart emitNode) (getEnd emitNode) (emit ''{type: '' st)
                      | None \<Rightarrow> emit typeStr (emit ''{type: '' st)))"
    have s3: "sameVisitor st st3" unfolding st3_def by (rule sameVisitor_ctorType)
    from Cons.prems have rest: "\<forall>d \<in> ctorDecorators ps. visitable k A (expression d)"
      and here: "\<forall>ds. decos = Some ds \<longrightarrow> (\<forall>d \<in> set ds. visitable k A (expression d))"
      by (auto simp: Some cd ctorDecorators_Cons_Some)
    have "\<exists>st5. (case decos of
                 None \<Rightarrow> Some st3
               | Some ds \<Rightarrow>
                   (case emitDecorators V e '', '' ds (emit ''decorators: ['' st3) of
                      None \<Rightarrow> None
                    | Some st4 \<Rightarrow> Some (emit '']'' st4))) = Some st5 \<and> Rel e A st st5"
    proof (cases decos)
      case None
      then show ?thesis using sameVisitor_Rel [OF s3] by simp
    next
      case (Some ds)
      with here have "\<forall>d \<in> set ds. visitable k A (expression d)" by simp
      from emitDecorators_ok [OF assms this, of "'', ''" "emit ''decorators: ['' st3"]
      obtain st4 where
        e4: "emitDecorators V e '', '' ds (emit ''decorators: ['' st3) = Some st4" and
        r4: "Rel e A (emit ''decorators: ['' st3) st4"
        by blast
      from sameVisitor_trans [OF s3 sameVisitor_emit] r4 have "Rel e A st st4"
        by (rule sameVisitor_Rel_trans)
      then have "Rel e A st (emit '']'' st4)" using sameVisitor_emit by (rule Rel_sameVisitor)
      with e4 Some show ?thesis by simp
    qed
    then obtain st5 where
      e5: "(case decos of
                 None \<Rightarrow> Some st3
               | Some ds \<Rightarrow>
                   (case emitDecorators V e '', '' ds (emit ''decorators: ['' st3) of
                      None \<Rightarrow> None
                    | Some st4 \<Rightarrow> Some (emit '']'' st4))) = Some st5" and
      r5: "Rel e A st st5"
      by blast
    from Cons.IH [OF rest, of "emit ''},\<newline>'' st5"] obtain st' where
      e': "emitCtorParameters V e ps (emit ''},\<newline>'' st5) = Some st'" and
      r': "Rel e A (emit ''},\<newline>'' st5) st'"
      by blast
    have "Rel e A st (emit ''},\<newline>'' st5)" using r5 sameVisitor_emit by (rule Rel_sameVisitor)
    then have "Rel e A st st'" using r' by (rule Rel_trans)
    moreover have "emitCtorParameters V e (p # ps) st = Some st'"
      unfolding Some cd emitCtorParameters.simps Let_def
      using e5 e' unfolding st3_def by simp
    ultimately show ?thesis by blast
  qed
qed

lemma propLookup_stored:
  assumes "this_propDecorators st = Some m" and "map_of m name = Some ds"
  shows "set ds \<subseteq> stored st"
proof
  fix d assume d: "d \<in> set ds"
  from assms(1) obtain v where v: "currentDecoratorConverter st = Some v" "propDecorators v = Some m"
    by (auto simp: this_propDecorators_def split: option.splits)
  from assms(2) have "(name, ds) \<in> set m" by (rule map_of_SomeD)
  with v(2) d have "d \<in> storedV v" by (metis in_storedV_prop)
  with v(1) show "d \<in> stored st" by (simp add: stored_def)
qed

lemma Rel_propHas: "Rel e A st st' \<Longrightarrow> propHas st name \<Longrightarrow> propHas st' name"
  by (simp add: Rel_def)

lemma sameVisitor_converter:
  "sameVisitor st st' \<Longrightarrow> currentDecoratorConverter st' = currentDecoratorConverter st"
  by (simp add: sameVisitor_def)

lemma sameVisitor_propHas: "sameVisitor st st' \<Longrightarrow> propHas st' = propHas st"
  by (rule this_cong(7) [OF sameVisitor_converter])

lemma sameVisitor_stored: "sameVisitor st st' \<Longrightarrow> stored st' = stored st"
  by (rule this_cong(5) [OF sameVisitor_converter])

lemma emitPropDecorators_ok:
  assumes "okV e k V" and "gatherable k A"
  shows "stored st \<subseteq> A \<Longrightarrow> \<forall>name \<in> set names. propHas st name \<Longrightarrow>
         \<exists>st'. emitPropDecorators V e names st = Some st' \<and> Rel e A st st'"
proof (induction names arbitrary: st)
  case Nil
  then show ?case by (simp add: Rel_refl)
next
  case (Cons name names)
  define st1 where "st1 = emit ([CHR 0x22] @ name @ [CHR 0x22] @ '': ['') st"
  have s1: "sameVisitor st st1" unfolding st1_def by (rule sameVisitor_emit)
  from Cons.prems have "propHas st1 name" by (simp add: sameVisitor_propHas [OF s1])
  then obtain m ds where m: "this_propDecorators st1 = Some m" and l: "map_of m name = Some ds"
    by (auto simp: propHas_def split: option.splits)
  from propLookup_stored [OF m l] Cons.prems(1) have "set ds \<subseteq> A"
    by (simp add: sameVisitor_stored [OF s1])
  with assms(2) have "\<forall>d \<in> set ds. visitable k A (expression d)"
    unfolding gatherable_def by blast
  from emitDecorators_ok [OF assms(1) this, of "'',''" st1] obtain st2 where
    e2: "emitDecorators V e '','' ds st1 = Some st2" and r2: "Rel e A st1 st2"
    by blast
  from s1 r2 have r02: "Rel e A st st2" by (rule sameVisitor_Rel_trans)
  then have r03: "Rel e A st (emit ''],\<newline>'' st2)" using sameVisitor_emit by (rule Rel_sameVisitor)
  from Rel_stored [OF r03 Cons.prems(1)] have st: "stored (emit ''],\<newline>'' st2) \<subseteq> A" .
  from Cons.prems(2) r03 have ph: "\<forall>name \<in> set names. propHas (emit ''],\<newline>'' st2) name"
    using Rel_propHas by auto
  from Cons.IH [OF st ph] obtain st' where
    e': "emitPropDecorators V e names (emit ''],\<newline>'' st2) = Some st'" and
    r': "Rel e A (emit ''],\<newline>'' st2) st'"
    by blast
  from r03 r' have "Rel e A st st'" by (rule Rel_trans)
  moreover have "emitPropDecorators V e (name # names) st = Some st'"
    using m l e2 e' by (simp add: st1_def Let_def)
  ultimately show ?case by blast
qed

lemma this_decorators_stored: "this_decorators st = Some ds \<Longrightarrow> set ds \<subseteq> stored st"
  by (auto simp: this_decorators_def stored_def storedV_def split: option.splits)

lemma this_ctorParameters_stored:
  "this_ctorParameters st = Some ps \<Longrightarrow> ctorDecorators ps \<subseteq> stored st"
  by (auto simp: this_ctorParameters_def stored_def storedV_def split: option.splits)

lemma gatherable_subset:
  "gatherable k A \<Longrightarrow> S \<subseteq> A \<Longrightarrow> \<forall>d \<in> S. visitable k A (expression d)"
  unfolding gatherable_def by blast

lemma emitStaticDecorators_ok:
  assumes "okV e k V" and "gatherable k A" and "stored st \<subseteq> A"
  shows "\<exists>st'. emitStaticDecorators V e st = Some st' \<and> Rel e A st st' \<and>
           (this_decorators st = None \<longrightarrow> st' = st) \<and>
           (\<forall>ds. this_decorators st = Some ds \<longrightarrow>
              (\<exists>entries. length entries = length ds \<and>
                 outputs st' = outputs st @ [staticDecoratorsHeader] @
                    concat (map (\<lambda>entry. entry @ ['',\<newline>'']) entries) @ [''];\<newline>''] \<and>
                 list_all2 (entryOf V e) ds entries))"
proof (cases "this_decorators st")
  case None
  then show ?thesis by (simp add: emitStaticDecorators_def Rel_refl)
next
  case (Some ds)
  from this_decorators_stored [OF Some] assms(3) have "set ds \<subseteq> A" by blast
  from gatherable_subset [OF assms(2) this] have "\<forall>d \<in> set ds. visitable k A (expression d)" .
  from emitDecorators_ok [OF assms(1) this, of "'',\<newline>''" "emit staticDecoratorsHeader st"]
  obtain st1 entries where
    e1: "emitDecorators V e '',\<newline>'' ds (emit staticDecoratorsHeader st) = Some st1" and
    r1: "Rel e A (emit staticDecoratorsHeader st) st1" and
    l1: "length entries = length ds" and
    o1: "outputs st1 = outputs (emit staticDecoratorsHeader st) @
           concat (map (\<lambda>entry. entry @ ['',\<newline>'']) entries)" and
    s1: "list_all2 (entryOf V e) ds entries"
    by blast
  have "emitStaticDecorators V e st = Some (emit ''];\<newline>'' st1)"
    using Some e1 by (simp add: emitStaticDecorators_def staticDecoratorsHeader_def)
  moreover have "Rel e A st (emit ''];\<newline>'' st1)"
    using sameVisitor_Rel_trans [OF sameVisitor_emit r1] sameVisitor_emit by (rule Rel_sameVisitor)
  moreover have "outputs (emit ''];\<newline>'' st1) = outputs st @ [staticDecoratorsHeader] @
                    concat (map (\<lambda>entry. entry @ ['',\<newline>'']) entries) @ [''];\<newline>'']"
    using o1 by (simp add: outputs_emit)
  ultimately show ?thesis using Some l1 s1 by auto
qed

lemma emitStaticCtorParameters_ok:
  assumes "okV e k V" and "gatherable k A" and "stored st \<subseteq> A"
  shows "\<exists>st'. emitStaticCtorParameters V e st = Some st' \<and> Rel e A st st' \<and>
           (this_decorators st = None \<and> this_ctorParameters st = None \<longrightarrow> st' = st) \<and>
           (this_decorators st \<noteq> None \<or> this_ctorParameters st \<noteq> None \<longrightarrow>
              (\<exists>xs. concat xs \<noteq> [] \<and> outputs st' = outputs st @ xs))"
proof (cases "this_decorators st \<noteq> None \<or> this_ctorParameters st \<noteq> None")
  case False
  then show ?thesis by (simp add: emitStaticCtorParameters_def Rel_refl)
next
  case True
  define ps where "ps = (case this_ctorParameters st of None \<Rightarrow> [] | Some ps \<Rightarrow> ps)"
  define st0 where "st0 = emit (''static ctorParameters: () => ({type: any, decorators?: '' @
                          decoratorInvocations @ ''}|null)[] = () => [\<newline>'')
                      (emit ''/** @nocollapse */\<newline>'' st)"
  have s0: "sameVisitor st st0" unfolding st0_def
    by (rule sameVisitor_trans [OF sameVisitor_emit sameVisitor_emit])
  have "ctorDecorators ps \<subseteq> stored st"
  proof (cases "this_ctorParameters st")
    case None
    then show ?thesis by (simp add: ps_def ctorDecorators_def)
  next
    case (Some ps')
    then show ?thesis using this_ctorParameters_stored [OF Some] by (simp add: ps_def)
  qed
  with assms(3) have "ctorDecorators ps \<subseteq> A" by blast
  from gatherable_subset [OF assms(2) this] have "\<forall>d \<in> ctorDecorators ps. visitable k A (expression d)" .
  from emitCtorParameters_ok [OF assms(1) this, of st0] obtain st1 where
    e1: "emitCtorParameters V e ps st0 = Some st1" and r1: "Rel e A st0 st1"
    by blast
  have em: "emitStaticCtorParameters V e st = Some (emit ''];\<newline>'' st1)"
    using True e1 unfolding emitStaticCtorParameters_def ps_def st0_def by simp
  have r: "Rel e A st (emit ''];\<newline>'' st1)"
    using sameVisitor_Rel_trans [OF s0 r1] sameVisitor_emit by (rule Rel_sameVisitor)
  from Rel_outputs [OF r1] obtain xs where "outputs st1 = outputs st0 @ xs" by blast
  then have "outputs (emit ''];\<newline>'' st1) = outputs st @
      (''/** @nocollapse */\<newline>'' # (''static ctorParameters: () => ({type: any, decorators?: '' @
                          decoratorInvocations @ ''}|null)[] = () => [\<newline>'') # xs @ [''];\<newline>''])"
    by (simp add: st0_def outputs_emit)
  moreover have "concat (''/** @nocollapse */\<newline>'' # (''static ctorParameters: () => ({type: any, decorators?: '' @
                          decoratorInvocations @ ''}|null)[] = () => [\<newline>'') # xs @ [''];\<newline>'']) \<noteq> []"
    by simp
  ultimately have "\<exists>xs. concat xs \<noteq> [] \<and> outputs (emit ''];\<newline>'' st1) = outputs st @ xs" by blast
  with em r True show ?thesis by auto
qed

lemma propHas_keys:
  "this_propDecorators st = Some m \<Longrightarrow> \<forall>name \<in> set (map fst m). propHas st name"
  by (auto simp: propHas_def weak_map_of_SomeI)

lemma emitStaticPropDecorators_ok:
  assumes "okV e k V" and "gatherable k A" and "stored st \<subseteq> A"
  shows "\<exists>st'. emitStaticPropDecorators V e st = Some st' \<and> Rel e A st st' \<and>
           (this_propDecorators st = None \<longrightarrow> st' = st) \<and>
           (this_propDecorators st \<noteq> None \<longrightarrow> (\<exists>xs. concat xs \<noteq> [] \<and> outputs st' = outputs st @ xs))"
proof (cases "this_propDecorators st")
  case None
  then show ?thesis by (simp add: emitStaticPropDecorators_def Rel_refl)
next
  case (Some m)
  define st0 where "st0 = emit (''static propDecorators: {[key: string]: '' @ decoratorInvocations @
                         ''} = {\<newline>'') st"
  have s0: "sameVisitor st st0" unfolding st0_def by (rule sameVisitor_emit)
  have st: "stored st0 \<subseteq> A" using assms(3) by (simp add: sameVisitor_stored [OF s0])
  have ph: "\<forall>name \<in> set (map fst m). propHas st0 name"
    using propHas_keys [OF Some] by (simp add: sameVisitor_propHas [OF s0])
  from emitPropDecorators_ok [OF assms(1) assms(2) st ph] obtain st1 where
    e1: "emitPropDecorators V e (map fst m) st0 = Some st1" and r1: "Rel e A st0 st1"
    by blast
  have em: "emitStaticPropDecorators V e st = Some (emit ''};\<newline>'' st1)"
    using Some e1 unfolding emitStaticPropDecorators_def st0_def by simp
  have r: "Rel e A st (emit ''};\<newline>'' st1)"
    using sameVisitor_Rel_trans [OF s0 r1] sameVisitor_emit by (rule Rel_sameVisitor)
  from Rel_outputs [OF r1] obtain xs where "outputs st1 = outputs st0 @ xs" by blast
  then have "outputs (emit ''};\<newline>'' st1) = outputs st @
      ((''static propDecorators: {[key: string]: '' @ decoratorInvocations @ ''} = {\<newline>'') # xs @ [''};\<newline>''])"
    by (simp add: st0_def outputs_emit)
  moreover have "concat ((''static propDecorators: {[key: string]: '' @ decoratorInvocations @ ''} = {\<newline>'') # xs @ [''};\<newline>'']) \<noteq> []"
    by simp
  ultimately have "\<exists>xs. concat xs \<noteq> [] \<and> outputs (emit ''};\<newline>'' st1) = outputs st @ xs" by blast
  with em r Some show ?thesis by auto
qed

lemma Rel_this_decorators: "Rel e A st st' \<Longrightarrow> this_decorators st' = this_decorators st"
  by (simp add: Rel_def)

lemma Rel_this_ctorParameters:
  "Rel e A st st' \<Longrightarrow> this_ctorParameters st \<noteq> None \<Longrightarrow> this_ctorParameters st' \<noteq> None"
  by (simp add: Rel_def)

lemma propHas_defined: "propHas st name \<Longrightarrow> this_propDecorators st \<noteq> None"
  by (cases "this_propDecorators st") (simp_all add: propHas_def)

lemma emitMetadata_ok:
  assumes "okV e k V" and "gatherable k A" and "stored st \<subseteq> A"
  shows "\<exists>st'. emitMetadataAsStaticProperties V e st = Some st' \<and> Rel e A st st' \<and>
           (\<not> hasMetadata st \<longrightarrow> st' = st) \<and>
           (hasMetadata st \<longrightarrow> (\<exists>xs. concat xs \<noteq> [] \<and> outputs st' = outputs st @ xs)) \<and>
           (\<forall>ds. this_decorators st = Some ds \<longrightarrow>
              (\<exists>entries rest. length entries = length ds \<and>
                 outputs st' = outputs st @ [staticDecoratorsHeader] @
                    concat (map (\<lambda>entry. entry @ ['',\<newline>'']) entries) @ [''];\<newline>''] @ rest \<and>
                 list_all2 (entryOf V e) ds entries))"
proof -
  from emitStaticDecorators_ok [OF assms] obtain st1 where
    c1: "emitStaticDecorators V e st = Some st1 \<and> Rel e A st st1 \<and>
           (this_decorators st = None \<longrightarrow> st1 = st) \<and>
           (\<forall>ds. this_decorators st = Some ds \<longrightarrow>
              (\<exists>entries. length entries = length ds \<and>
                 outputs st1 = outputs st @ [staticDecoratorsHeader] @
                    concat (map (\<lambda>entry. entry @ ['',\<newline>'']) entries) @ [''];\<newline>''] \<and>
                 list_all2 (entryOf V e) ds entries))" ..
  note e1 = c1 [THEN conjunct1] and r1 = c1 [THEN conjunct2, THEN conjunct1]
    and n1 = c1 [THEN conjunct2, THEN conjunct2, THEN conjunct1]
    and d1 = c1 [THEN conjunct2, THEN conjunct2, THEN conjunct2]
  from Rel_stored [OF r1 assms(3)] have s1: "stored st1 \<subseteq> A" .
  from emitStaticCtorParameters_ok [OF assms(1,2) s1] obtain st2 where
    e2: "emitStaticCtorParameters V e st1 = Some st2" and r2: "Rel e A st1 st2" and
    n2: "this_decorators st1 = None \<and> this_ctorParameters st1 = None \<longrightarrow> st2 = st1" and
    d2: "this_decorators st1 \<noteq> None \<or> this_ctorParameters st1 \<noteq> None \<longrightarrow>
              (\<exists>xs. concat xs \<noteq> [] \<and> outputs st2 = outputs st1 @ xs)"
    by blast
  from Rel_stored [OF r2 s1] have s2: "stored st2 \<subseteq> A" .
  from emitStaticPropDecorators_ok [OF assms(1,2) s2] obtain st3 where
    c3: "emitStaticPropDecorators V e st2 = Some st3 \<and> Rel e A st2 st3 \<and>
           (this_propDecorators st2 = None \<longrightarrow> st3 = st2) \<and>
           (this_propDecorators st2 \<noteq> None \<longrightarrow> (\<exists>xs. concat xs \<noteq> [] \<and> outputs st3 = outputs st2 @ xs))" ..
  note e3 = c3 [THEN conjunct1] and r3 = c3 [THEN conjunct2, THEN conjunct1]
    and n3 = c3 [THEN conjunct2, THEN conjunct2, THEN conjunct1]
    and d3 = c3 [THEN conjunct2, THEN conjunct2, THEN conjunct2]
  have em: "emitMetadataAsStaticProperties V e st = Some st3"
    using e1 e2 e3 by (simp add: emitMetadataAsStaticProperties_def)
  have r: "Rel e A st st3" using Rel_trans [OF r1 r2] r3 by (rule Rel_trans)
  from Rel_outputs [OF r2] obtain x2 where x2: "outputs st2 = outputs st1 @ x2" by blast
  from Rel_outputs [OF r3] obtain x3 where x3: "outputs st3 = outputs st2 @ x3" by blast
  from Rel_outputs [OF r1] obtain x1 where x1: "outputs st1 = outputs st @ x1" by blast
  have no: "\<not> hasMetadata st \<longrightarrow> st3 = st"
  proof
    assume h: "\<not> hasMetadata st"
    then have "st1 = st" using n1 by (simp add: hasMetadata_def)
    moreover from this h have "st2 = st1" using n2 by (simp add: hasMetadata_def)
    moreover from calculation h have "st3 = st2" using n3 by (simp add: hasMetadata_def)
    ultimately show "st3 = st" by simp
  qed
  have yes: "hasMetadata st \<longrightarrow> (\<exists>xs. concat xs \<noteq> [] \<and> outputs st3 = outputs st @ xs)"
  proof
    assume h: "hasMetadata st"
    show "\<exists>xs. concat xs \<noteq> [] \<and> outputs st3 = outputs st @ xs"
    proof (cases "this_decorators st")
      case (Some ds)
      with d1 obtain entries where
        "outputs st1 = outputs st @ [staticDecoratorsHeader] @
                    concat (map (\<lambda>entry. entry @ ['',\<newline>'']) entries) @ [''];\<newline>'']"
        by blast
      then have "outputs st3 = outputs st @ (staticDecoratorsHeader #
                    concat (map (\<lambda>entry. entry @ ['',\<newline>'']) entries) @ [''];\<newline>''] @ x2 @ x3)"
        using x2 x3 by simp
      moreover have "concat (staticDecoratorsHeader #
                    concat (map (\<lambda>entry. entry @ ['',\<newline>'']) entries) @ [''];\<newline>''] @ x2 @ x3) \<noteq> []"
        by (simp add: staticDecoratorsHeader_def)
      ultimately show ?thesis by blast
    next
      case None
      then have eq1: "st1 = st" using n1 by simp
      show ?thesis
      proof (cases "this_ctorParameters st")
        case (Some ps)
        with d2 eq1 obtain xs where "concat xs \<noteq> []" "outputs st2 = outputs st @ xs" by auto
        then have "concat (xs @ x3) \<noteq> [] \<and> outputs st3 = outputs st @ (xs @ x3)" using x3 by simp
        then show ?thesis by blast
      next
        case n: None
        with None eq1 n2 have eq2: "st2 = st" by simp
        from h None n have "this_propDecorators st \<noteq> None" by (simp add: hasMetadata_def)
        with d3 eq2 show ?thesis by simp
      qed
    qed
  qed
  have shape: "\<forall>ds. this_decorators st = Some ds \<longrightarrow>
              (\<exists>entries rest. length entries = length ds \<and>
                 outputs st3 = outputs st @ [staticDecoratorsHeader] @
                    concat (map (\<lambda>entry. entry @ ['',\<newline>'']) entries) @ [''];\<newline>''] @ rest \<and>
                 list_all2 (entryOf V e) ds entries)"
  proof (intro allI impI)
    fix ds assume "this_decorators st = Some ds"
    with d1 obtain entries where
      l: "length entries = length ds" and
      o: "outputs st1 = outputs st @ [staticDecoratorsHeader] @
                    concat (map (\<lambda>entry. entry @ ['',\<newline>'']) entries) @ [''];\<newline>'']" and
      s: "list_all2 (entryOf V e) ds entries"
      by blast
    from o x2 x3 have "outputs st3 = outputs st @ [staticDecoratorsHeader] @
                    concat (map (\<lambda>entry. entry @ ['',\<newline>'']) entries) @ [''];\<newline>''] @ (x2 @ x3)"
      by simp
    with l s show "\<exists>entries rest. length entries = length ds \<and>
                 outputs st3 = outputs st @ [staticDecoratorsHeader] @
                    concat (map (\<lambda>entry. entry @ ['',\<newline>'']) entries) @ [''];\<newline>''] @ rest \<and>
                 list_all2 (entryOf V e) ds entries"
      by blast
  qed
  show ?thesis
  proof (intro exI [of _ st3] conjI)
    show "emitMetadataAsStaticProperties V e st = Some st3" by (rule em)
    show "Rel e A st st3" by (rule r)
    show "\<not> hasMetadata st \<longrightarrow> st3 = st" by (rule no)
    show "hasMetadata st \<longrightarrow> (\<exists>xs. concat xs \<noteq> [] \<and> outputs st3 = outputs st @ xs)" by (rule yes)
    show "\<forall>ds. this_decorators st = Some ds \<longrightarrow>
              (\<exists>entries rest. length entries = length ds \<and>
                 outputs st3 = outputs st @ [staticDecoratorsHeader] @
                    concat (map (\<lambda>entry. entry @ ['',\<newline>'']) entries) @ [''];\<newline>''] @ rest \<and>
                 list_all2 (entryOf V e) ds entries)"
      by (rule shape)
  qed
qed

lemma gatherable_class:
  assumes f: "fits (Suc k) n" and nd: "\<forall>d. n \<noteq> DecoratorNode d"
  shows "gatherable k (decoratorsWithin n)"
  unfolding gatherable_def
proof
  fix d assume "d \<in> decoratorsWithin n"
  then have w: "within n (DecoratorNode d)" by (simp add: decoratorsWithin_def)
  from w nd obtain c where c: "c \<in> set (forEachChild n)" and wc: "within c (DecoratorNode d)"
    by (cases rule: within.cases) auto
  from fits_child [OF f c] have "fits k c" .
  with wc have fd: "fits k (DecoratorNode d)" by (rule fits_within)
  then obtain j where k: "k = Suc j" by (cases k) auto
  from fd k have "fits j (expression d)" by simp
  then have fe: "fits k (expression d)" unfolding k by (rule fits_mono)
  have "within (DecoratorNode d) (expression d)"
    by (rule within_child [of "expression d"]) (simp_all add: within_refl)
  with w have "within n (expression d)" by (rule within_trans)
  then have "decoratorsWithin (expression d) \<subseteq> decoratorsWithin n"
    by (rule decoratorsWithin_within)
  with fe show "visitable k (decoratorsWithin n) (expression d)" by (simp add: visitable_def)
qed

lemma children_visitable:
  assumes "fits (Suc k) n"
  shows "\<forall>c \<in> set (forEachChild n). visitable k (decoratorsWithin n) c"
proof
  fix c assume c: "c \<in> set (forEachChild n)"
  from fits_child [OF assms c] decoratorsWithin_child [OF c]
  show "visitable k (decoratorsWithin n) c" by (simp add: visitable_def)
qed

lemma stored_new:
  "stored (st\<lparr>currentDecoratorConverter := Some (newDecoratorClassVisitor e n imported)\<rparr>)
     \<subseteq> decoratorsWithin n"
proof -
  have "set (decoratorsToLower e n) \<subseteq> decoratorsWithin n"
    using decoratorsToLower_set [of _ e n] decoratorsInside_subset [of n] by blast
  then show ?thesis
    by (auto simp: stored_def storedV_def newDecoratorClassVisitor_def Let_def
             split: option.splits if_splits)
qed

lemma sameVisitor_outputs_only:
  assumes "\<exists>xs. outputs st' = outputs st @ xs" and "\<exists>ds. diagnostics st' = diagnostics st @ ds"
  shows "sameVisitor st (st'\<lparr>currentDecoratorConverter := currentDecoratorConverter st\<rparr>)"
  using assms by (simp add: sameVisitor_def)

lemma Rel_diagnostics: "Rel e A st st' \<Longrightarrow> \<exists>ds. diagnostics st' = diagnostics st @ ds"
  by (simp add: Rel_def)

text \<open>The content of a class whose last character is the closing brace.\<close>

lemma visitClassContent_ok:
  assumes ok: "okV e k V" and f: "fits (Suc k) n" and nd: "\<forall>d. n \<noteq> DecoratorNode d"
      and t: "classTerminator e n" and s: "stored st \<subseteq> decoratorsWithin n"
  shows "\<exists>st1 st2.
           writeNodeFrom V e n (getStart n) (getEnd n - 1) st = Some st1 \<and>
           Rel e (decoratorsWithin n) st st1 \<and>
           emitMetadataAsStaticProperties V e st1 = Some st2 \<and>
           Rel e (decoratorsWithin n) st1 st2 \<and>
           stored st1 \<subseteq> decoratorsWithin n \<and>
           visitClassContentIncludingDecorators V e n True st
             = Some (writeRange e (getEnd n - 1) (getEnd n) st2)"
proof -
  let ?A = "decoratorsWithin n"
  from writeNodeFrom_ok [OF ok children_visitable [OF f]] obtain st1 where
    w: "writeNodeFrom V e n (getStart n) (getEnd n - 1) st = Some st1" and r1: "Rel e ?A st st1"
    by blast
  from Rel_stored [OF r1 s] have s1: "stored st1 \<subseteq> ?A" .
  from emitMetadata_ok [OF ok gatherable_class [OF f nd] s1] obtain st2 where
    c: "emitMetadataAsStaticProperties V e st1 = Some st2 \<and> Rel e ?A st1 st2"
    by (elim exE conjE) (rule that, rule conjI)
  from c have m: "emitMetadataAsStaticProperties V e st1 = Some st2" by (rule conjunct1)
  from c have r2: "Rel e ?A st1 st2" by (rule conjunct2)
  have "visitClassContentIncludingDecorators V e n True st
          = Some (writeRange e (getEnd n - 1) (getEnd n) st2)"
    using t w m by (simp add: visitClassContentIncludingDecorators_def)
  with w r1 m r2 s1 show ?thesis by blast
qed

lemma visitClassContent_returns:
  assumes ok: "okV e k V" and f: "fits (Suc k) n" and nd: "\<forall>d. n \<noteq> DecoratorNode d"
      and s: "stored st \<subseteq> decoratorsWithin n"
  shows "\<exists>st'. visitClassContentIncludingDecorators V e n True st = Some st' \<and>
           (\<exists>xs. outputs st' = outputs st @ xs) \<and> (\<exists>ds. diagnostics st' = diagnostics st @ ds)"
proof (cases "classTerminator e n")
  case False
  then have "visitClassContentIncludingDecorators V e n True st
               = Some (error n ''unexpected class terminator'' st)"
    by (simp add: visitClassContentIncludingDecorators_def)
  then show ?thesis by (simp add: error_def)
next
  case True
  from visitClassContent_ok [OF ok f nd True s] obtain st1 st2 where
    r1: "Rel e (decoratorsWithin n) st st1" and r2: "Rel e (decoratorsWithin n) st1 st2" and
    v: "visitClassContentIncludingDecorators V e n True st
             = Some (writeRange e (getEnd n - 1) (getEnd n) st2)"
    by blast
  from Rel_trans [OF r1 r2] have r: "Rel e (decoratorsWithin n) st st2" .
  from Rel_outputs [OF r] Rel_diagnostics [OF r] v show ?thesis
    by (auto simp: writeRange_def emit_def)
qed

lemma processClassDeclaration_ok:
  assumes ok: "okV e k V" and f: "fits (Suc k) n" and nd: "\<forall>d. n \<noteq> DecoratorNode d"
  shows "\<exists>st'. processClassDeclaration V e n st = Some st' \<and> sameVisitor st st'"
proof -
  let ?st1 = "st\<lparr>currentDecoratorConverter := Some (newDecoratorClassVisitor e n [])\<rparr>"
  let ?st2 = "writeRange e (getFullStart n) (getStart n) ?st1"
  have "stored ?st2 = stored ?st1"
    by (rule sameVisitor_stored [OF sameVisitor_writeRange])
  with stored_new have s: "stored ?st2 \<subseteq> decoratorsWithin n" by simp
  from visitClassContent_returns [OF ok f nd s] obtain st3 where
    v: "visitClassContentIncludingDecorators V e n True ?st2 = Some st3" and
    o: "\<exists>xs. outputs st3 = outputs ?st2 @ xs" and d: "\<exists>ds. diagnostics st3 = diagnostics ?st2 @ ds"
    by blast
  have p: "processClassDeclaration V e n st
             = Some (st3\<lparr>currentDecoratorConverter := currentDecoratorConverter st\<rparr>)"
    using v by (simp add: processClassDeclaration_def Let_def)
  from o have o': "\<exists>xs. outputs st3 = outputs st @ xs" by (auto simp: writeRange_def emit_def)
  from d have d': "\<exists>ds. diagnostics st3 = diagnostics st @ ds" by (auto simp: writeRange_def emit_def)
  from sameVisitor_outputs_only [OF o' d'] p show ?thesis by simp
qed

lemma maybeProcess_other:
  assumes "\<forall>d. n \<noteq> DecoratorNode d"
  shows "maybeProcess V e n st =
           (if isClassDeclaration n
            then (case processClassDeclaration V e n (runBeforeProcessNode e n st) of
                    None \<Rightarrow> None
                  | Some st1 \<Rightarrow> Some (True, st1))
            else Some (False, runBeforeProcessNode e n st))"
  using assms by (cases n) (simp_all add: maybeProcess_def Let_def)

lemma maybeProcess_decorator:
  "maybeProcess V e (DecoratorNode d) st =
     (case currentDecoratorConverter (runBeforeProcessNode e (DecoratorNode d) st) of
        None \<Rightarrow> Some (False, runBeforeProcessNode e (DecoratorNode d) st)
      | Some v \<Rightarrow> Some (maybeProcessDecorator e d None (runBeforeProcessNode e (DecoratorNode d) st)))"
  by (simp add: maybeProcess_def Let_def)

lemma visitWith_ok:
  assumes ok: "okV e k V" and f: "fits (Suc k) n"
  shows "\<exists>st'. visitWith V e n st = Some st' \<and> Rel e (decoratorsWithin n) st st'"
proof -
  let ?A = "decoratorsWithin n"
  let ?st0 = "runBeforeProcessNode e n st"
  have r0: "Rel e ?A st ?st0"
    by (rule Rel_mono [OF runBeforeProcessNode_Rel decoratorsInside_subset])
  from writeNodeFrom_ok [OF ok children_visitable [OF f]] obtain stc where
    wc: "writeNodeFrom V e n (getFullStart n) (getEnd n) ?st0 = Some stc" and
    rc: "Rel e ?A ?st0 stc"
    by blast
  from r0 rc have rc': "Rel e ?A st stc" by (rule Rel_trans)
  show ?thesis
  proof (cases "\<exists>d. n = DecoratorNode d")
    case True
    then obtain d where n: "n = DecoratorNode d" by blast
    show ?thesis
    proof (cases "currentDecoratorConverter ?st0 \<noteq> None \<and> shouldLower e d")
      case True
      then have "visitWith V e n st
                   = Some (writeRange e (fullStart (decoratorSpan d)) (start (decoratorSpan d)) ?st0)"
        unfolding n visitWith_def maybeProcess_decorator
        by (auto simp: maybeProcessDecorator_def)
      moreover have "Rel e ?A st
                       (writeRange e (fullStart (decoratorSpan d)) (start (decoratorSpan d)) ?st0)"
        using r0 sameVisitor_writeRange by (rule Rel_sameVisitor)
      ultimately show ?thesis by blast
    next
      case False
      then have "visitWith V e n st = writeNodeFrom V e n (getFullStart n) (getEnd n) ?st0"
        unfolding n visitWith_def maybeProcess_decorator
        by (auto simp: maybeProcessDecorator_def split: option.splits)
      with wc rc' show ?thesis by simp
    qed
  next
    case False
    then have nd: "\<forall>d. n \<noteq> DecoratorNode d" by blast
    show ?thesis
    proof (cases "isClassDeclaration n")
      case True
      from processClassDeclaration_ok [OF ok f nd, of ?st0] obtain st' where
        p: "processClassDeclaration V e n ?st0 = Some st'" and sv: "sameVisitor ?st0 st'"
        by blast
      have "visitWith V e n st = Some st'"
        using True p by (simp add: visitWith_def maybeProcess_other [OF nd])
      moreover have "Rel e ?A st st'" using r0 sv by (rule Rel_sameVisitor)
      ultimately show ?thesis by blast
    next
      case False
      then have "visitWith V e n st = writeNodeFrom V e n (getFullStart n) (getEnd n) ?st0"
        by (simp add: visitWith_def maybeProcess_other [OF nd])
      with wc rc' show ?thesis by simp
    qed
  qed
qed

lemma visit_ok: "okV e k (visit e k)"
proof (induction k)
  case 0
  show ?case by (simp add: okV_def)
next
  case (Suc k)
  show ?case
    unfolding okV_def
  proof (intro allI impI)
    fix n st assume "fits (Suc k) n"
    from visitWith_ok [OF Suc this, of st]
    show "\<exists>st'. visit e (Suc k) n st = Some st' \<and> Rel e (decoratorsWithin n) st st'"
      by simp
  qed
qed

lemma runBeforeProcessNode_decorator [simp]:
  "runBeforeProcessNode e (DecoratorNode d) st = st"
  by (cases "currentDecoratorConverter st") (simp_all add: runBeforeProcessNode_def)

lemma runBeforeProcessNode_class:
  "isClassDeclaration n \<Longrightarrow> runBeforeProcessNode e n st = st"
  by (cases n; cases "currentDecoratorConverter st") (simp_all add: runBeforeProcessNode_def)

lemma isClassDeclaration_not_decorator: "isClassDeclaration n \<Longrightarrow> \<forall>d. n \<noteq> DecoratorNode d"
  by (cases n) simp_all

lemma visit_lowered_decorator:
  assumes "shouldLower e d" and "currentDecoratorConverter st \<noteq> None"
  shows "visit e (Suc k) (DecoratorNode d) st
           = Some (st\<lparr>outputs := outputs st @
                      [slice (fileText e) (fullStart (decoratorSpan d)) (start (decoratorSpan d))]\<rparr>)"
  using assms
  by (auto simp: visitWith_def maybeProcess_decorator maybeProcessDecorator_def
                 writeRange_def emit_def)

text \<open>The visit of a class declaration whose text ends with the closing brace.\<close>

lemma visit_class:
  assumes c: "isClassDeclaration n" and f: "fits (Suc k) n" and t: "classTerminator e n"
  shows "\<exists>stBody stBlock block.
           writeNodeFrom (visit e k) e n (getStart n) (getEnd n - 1) (classEntry e n st)
             = Some stBody \<and>
           Rel e (decoratorsWithin n) (classEntry e n st) stBody \<and>
           stored stBody \<subseteq> decoratorsWithin n \<and>
           emitMetadataAsStaticProperties (visit e k) e stBody = Some stBlock \<and>
           outputs stBlock = outputs stBody @ block \<and>
           visit e (Suc k) n st
             = Some (stBlock\<lparr>outputs := outputs stBody @ block @ [''}''],
                              currentDecoratorConverter := currentDecoratorConverter st\<rparr>)"
proof -
  note nd = isClassDeclaration_not_decorator [OF c]
  have s: "stored (classEntry e n st) \<subseteq> decoratorsWithin n"
    unfolding classEntry_def
    using sameVisitor_stored [OF sameVisitor_writeRange] stored_new by simp
  from visitClassContent_ok [OF visit_ok f nd t s] obtain stBody stBlock where
    w: "writeNodeFrom (visit e k) e n (getStart n) (getEnd n - 1) (classEntry e n st) = Some stBody"
    and r1: "Rel e (decoratorsWithin n) (classEntry e n st) stBody"
    and m: "emitMetadataAsStaticProperties (visit e k) e stBody = Some stBlock"
    and r2: "Rel e (decoratorsWithin n) stBody stBlock"
    and s1: "stored stBody \<subseteq> decoratorsWithin n"
    and v: "visitClassContentIncludingDecorators (visit e k) e n True (classEntry e n st)
              = Some (writeRange e (getEnd n - 1) (getEnd n) stBlock)"
    by blast
  from Rel_outputs [OF r2] obtain block where b: "outputs stBlock = outputs stBody @ block"
    by blast
  have brace: "slice (fileText e) (getEnd n - 1) (getEnd n) = ''}''"
  proof -
    from t have g: "0 < getEnd n" and l: "getEnd n - 1 < length (fileText e)"
      and x: "fileText e ! (getEnd n - 1) = CHR ''}''"
      by (simp_all add: classTerminator_def)
    from g have "getEnd n - (getEnd n - 1) = 1" by simp
    then have "slice (fileText e) (getEnd n - 1) (getEnd n)
                 = take 1 (drop (getEnd n - 1) (fileText e))"
      using g l by (simp add: slice_def min_def)
    also have "\<dots> = [fileText e ! (getEnd n - 1)]"
      using l by (simp add: take_Suc_conv_app_nth [of 0] Cons_nth_drop_Suc [symmetric])
    finally show ?thesis using x by simp
  qed
  have "visit e (Suc k) n st
          = Some ((writeRange e (getEnd n - 1) (getEnd n) stBlock)
                    \<lparr>currentDecoratorConverter := currentDecoratorConverter st\<rparr>)"
    using c v
    by (simp add: visitWith_def maybeProcess_other [OF nd] runBeforeProcessNode_class [OF c]
                  processClassDeclaration_def Let_def classEntry_def)
  also have "(writeRange e (getEnd n - 1) (getEnd n) stBlock)
                    \<lparr>currentDecoratorConverter := currentDecoratorConverter st\<rparr>
               = stBlock\<lparr>outputs := outputs stBody @ block @ [''}''],
                         currentDecoratorConverter := currentDecoratorConverter st\<rparr>"
    using b brace by (simp add: writeRange_def emit_def)
  finally show ?thesis using w r1 s1 m b by blast
qed

lemma this_decorators_classEntry:
  "decoratorsToLower e n \<noteq> [] \<Longrightarrow>
   this_decorators (classEntry e n st) = Some (decoratorsToLower e n)"
  by (cases "decoratorsOf n")
     (simp_all add: classEntry_def this_decorators_def writeRange_def emit_def
        newDecoratorClassVisitor_def decoratorsToLower_def Let_def)

lemma hasMetadata_classEntry:
  "hasMetadata (classEntry e n st) = (decoratorsToLower e n \<noteq> [])"
  by (cases "decoratorsOf n")
     (simp_all add: classEntry_def hasMetadata_def this_decorators_def this_ctorParameters_def
        this_propDecorators_def writeRange_def emit_def
        newDecoratorClassVisitor_def decoratorsToLower_def Let_def)

lemma outputs_classEntry:
  "outputs (classEntry e n st)
     = outputs st @ [slice (fileText e) (getFullStart n) (getStart n)]"
  by (simp add: classEntry_def writeRange_def emit_def)

text \<open>
  C2. A class declaration with at least one class-level decorator to lower (its text ending
  with the closing brace, visited at a depth that reaches all of it, which by \<open>fits_size\<close>
  every depth above the size of the tree does) is visited to the end, and the output holds the \<open>static decorators\<close> field: its opening line, one entry per
  lowered class-level decorator, each followed by a comma and a line break, and the
  closing line. The entries are, in order, what \<open>emitDecorator\<close> writes for the lowered
  class-level decorators of the class, so there are as many entries as such decorators.
\<close>

theorem static_decorators_count:
  assumes c: "isClassDeclaration n" and f: "fits (Suc k) n" and t: "classTerminator e n"
      and l: "decoratorsToLower e n \<noteq> []"
  shows "\<exists>st' pre entries rest.
           visit e (Suc k) n st = Some st' \<and>
           outputs st' = outputs st @ pre @ [staticDecoratorsHeader] @
              concat (map (\<lambda>entry. entry @ ['',\<newline>'']) entries) @ [''];\<newline>''] @ rest \<and>
           length entries = length (decoratorsToLower e n) \<and>
           list_all2 (entryOf (visit e k) e) (decoratorsToLower e n) entries"
proof -
  let ?A = "decoratorsWithin n"
  note nd = isClassDeclaration_not_decorator [OF c]
  from visit_class [OF c f t, of st] obtain stBody stBlock block where
    r1: "Rel e ?A (classEntry e n st) stBody" and s1: "stored stBody \<subseteq> ?A" and
    m: "emitMetadataAsStaticProperties (visit e k) e stBody = Some stBlock" and
    b: "outputs stBlock = outputs stBody @ block" and
    v: "visit e (Suc k) n st
          = Some (stBlock\<lparr>outputs := outputs stBody @ block @ [''}''],
                           currentDecoratorConverter := currentDecoratorConverter st\<rparr>)"
    by blast
  from r1 have "this_decorators stBody = this_decorators (classEntry e n st)"
    by (simp add: Rel_def)
  with this_decorators_classEntry [OF l]
  have d: "this_decorators stBody = Some (decoratorsToLower e n)" by simp
  from emitMetadata_ok [OF visit_ok [of e k] gatherable_class [OF f nd] s1] obtain st2 where
    c2: "emitMetadataAsStaticProperties (visit e k) e stBody = Some st2 \<and>
         Rel e (decoratorsWithin n) stBody st2 \<and>
         (\<not> hasMetadata stBody \<longrightarrow> st2 = stBody) \<and>
         (hasMetadata stBody \<longrightarrow> (\<exists>xs. concat xs \<noteq> [] \<and> outputs st2 = outputs stBody @ xs)) \<and>
         (\<forall>ds. this_decorators stBody = Some ds \<longrightarrow>
              (\<exists>entries rest. length entries = length ds \<and>
                 outputs st2 = outputs stBody @ [staticDecoratorsHeader] @
                    concat (map (\<lambda>entry. entry @ ['',\<newline>'']) entries) @ [''];\<newline>''] @ rest \<and>
                 list_all2 (entryOf (visit e k) e) ds entries))" ..
  note e2 = c2 [THEN conjunct1]
    and sh2 = c2 [THEN conjunct2, THEN conjunct2, THEN conjunct2, THEN conjunct2]
  from e2 m have eq: "st2 = stBlock" by simp
  from sh2 [rule_format, OF d] obtain entries rest where
    le: "length entries = length (decoratorsToLower e n)" and
    o: "outputs st2 = outputs stBody @ [staticDecoratorsHeader] @
           concat (map (\<lambda>entry. entry @ ['',\<newline>'']) entries) @ [''];\<newline>''] @ rest" and
    sh: "list_all2 (entryOf (visit e k) e) (decoratorsToLower e n) entries"
    by blast
  from Rel_outputs [OF r1] obtain body where
    bo: "outputs stBody = outputs (classEntry e n st) @ body" by blast
  let ?pre = "slice (fileText e) (getFullStart n) (getStart n) # body"
  let ?st' = "stBlock\<lparr>outputs := outputs stBody @ block @ [''}''],
                        currentDecoratorConverter := currentDecoratorConverter st\<rparr>"
  from o eq b have bl: "block = [staticDecoratorsHeader] @
           concat (map (\<lambda>entry. entry @ ['',\<newline>'']) entries) @ [''];\<newline>''] @ rest"
    by simp
  have "outputs ?st' = outputs st @ ?pre @ [staticDecoratorsHeader] @
           concat (map (\<lambda>entry. entry @ ['',\<newline>'']) entries) @ [''];\<newline>''] @ (rest @ [''}''])"
    using bl bo by (simp add: outputs_classEntry)
  with v le sh show ?thesis by blast
qed

text \<open>
  C7. A decorator to lower that is visited inside a class is replaced by the text between
  its full start and its start, that is, by the whitespace that preceded it: nothing of the
  decorator itself is written. The visit of a class declaration writes the content of the
  class up to its last character, then what \<open>emitMetadataAsStaticProperties\<close> emits, and then
  the closing brace: the metadata block stands immediately before the closing brace.
\<close>

theorem lowered_decorator_suppressed:
  "(shouldLower e d \<and> currentDecoratorConverter st \<noteq> None \<longrightarrow>
      visit e (Suc k) (DecoratorNode d) st
        = Some (st\<lparr>outputs := outputs st @
                   [slice (fileText e) (fullStart (decoratorSpan d)) (start (decoratorSpan d))]\<rparr>)) \<and>
   (isClassDeclaration n \<and> fits (Suc k) n \<and> classTerminator e n \<longrightarrow>
      (\<exists>stBody stBlock block.
         writeNodeFrom (visit e k) e n (getStart n) (getEnd n - 1) (classEntry e n st)
           = Some stBody \<and>
         emitMetadataAsStaticProperties (visit e k) e stBody = Some stBlock \<and>
         outputs stBlock = outputs stBody @ block \<and>
         visit e (Suc k) n st
           = Some (stBlock\<lparr>outputs := outputs stBody @ block @ [''}''],
                            currentDecoratorConverter := currentDecoratorConverter st\<rparr>)))"
proof (intro conjI impI)
  assume "shouldLower e d \<and> currentDecoratorConverter st \<noteq> None"
  then show "visit e (Suc k) (DecoratorNode d) st
        = Some (st\<lparr>outputs := outputs st @
                   [slice (fileText e) (fullStart (decoratorSpan d)) (start (decoratorSpan d))]\<rparr>)"
    using visit_lowered_decorator by blast
next
  assume a: "isClassDeclaration n \<and> fits (Suc k) n \<and> classTerminator e n"
  from visit_class [of n k e st] a
  show "\<exists>stBody stBlock block.
         writeNodeFrom (visit e k) e n (getStart n) (getEnd n - 1) (classEntry e n st)
           = Some stBody \<and>
         emitMetadataAsStaticProperties (visit e k) e stBody = Some stBlock \<and>
         outputs stBlock = outputs stBody @ block \<and>
         visit e (Suc k) n st
           = Some (stBlock\<lparr>outputs := outputs stBody @ block @ [''}''],
                            currentDecoratorConverter := currentDecoratorConverter st\<rparr>)"
    by blast
qed

lemma visit_identifier:
  "visit e (Suc k) (IdentifierNode s t) st
     = Some (st\<lparr>outputs := outputs st @ [slice (fileText e) (fullStart s) (end' s)]\<rparr>)"
  by (cases "currentDecoratorConverter st")
     (simp_all add: visitWith_def maybeProcess_def Let_def runBeforeProcessNode_def
        writeNodeFrom_def writeRange_def emit_def getFullStart_def getEnd_def)

text \<open>
  C6. For a decorator whose expression is a call, the emitted entry is \<open>{ type: \<close>, what
  the visit of the callee writes (for an identifier, its text), and \<open> }\<close>; when the call
  has no arguments nothing stands between the callee and \<open> }\<close>, so there is no \<open>args\<close> key.
  When it has arguments, \<open>, args: [\<close>, what the traversal writes for each argument in order
  (for an argument without children, its text), each followed by a comma, and \<open>]\<close> stand
  there.
\<close>

theorem decorator_entry_args:
  assumes x: "expression d = CallExpressionNode s callee tas args" and f: "fits k (expression d)"
  shows "\<exists>st' stc calleeOut outs.
           visit e k callee (emit ''{ type: '' st) = Some stc \<and>
           outputs stc = outputs st @ [''{ type: ''] @ calleeOut \<and>
           (\<forall>s' t. callee = IdentifierNode s' t \<longrightarrow>
              calleeOut = [slice (fileText e) (fullStart s') (end' s')]) \<and>
           emitDecorator (visit e k) e d st = Some st' \<and>
           outputs st' = outputs st @ [''{ type: ''] @ calleeOut @
             (if args = [] then []
              else ['', args: [''] @ concat (map (\<lambda>out. out @ ['', '']) outs) @ ['']'']) @
             ['' }''] \<and>
           length outs = length args \<and>
           list_all2 (argumentOut (visit e k) e) args outs \<and>
           (\<forall>i < length args. forEachChild (args ! i) = [] \<longrightarrow>
              outs ! i = [slice (fileText e) (getStart (args ! i)) (getEnd (args ! i))])"
proof -
  have v: "visitable k (decoratorsWithin (expression d)) (expression d)"
    using f by (simp add: visitable_def)
  from emitDecorator_call [OF visit_ok [of e k] v x, of st]
  obtain st' stc calleeOut outs where
    vc: "visit e k callee (emit ''{ type: '' st) = Some stc" and
    oc: "outputs stc = outputs st @ [''{ type: ''] @ calleeOut" and
    em: "emitDecorator (visit e k) e d st = Some st'" and
    la: "length outs = length args" and
    o: "outputs st' = outputs st @ [''{ type: ''] @ calleeOut @
             (if args = [] then []
              else ['', args: [''] @ concat (map (\<lambda>out. out @ ['', '']) outs) @ ['']'']) @
             ['' }'']" and
    lf: "\<forall>i < length args. forEachChild (args ! i) = [] \<longrightarrow>
              outs ! i = [slice (fileText e) (getStart (args ! i)) (getEnd (args ! i))]" and
    ao: "list_all2 (argumentOut (visit e k) e) args outs"
    by blast
  from f obtain j where k: "k = Suc j" by (cases k) auto
  have ci: "\<forall>s' t. callee = IdentifierNode s' t \<longrightarrow>
              calleeOut = [slice (fileText e) (fullStart s') (end' s')]"
  proof (intro allI impI)
    fix s' t assume c: "callee = IdentifierNode s' t"
    from vc have "stc = (emit ''{ type: '' st)\<lparr>outputs := outputs (emit ''{ type: '' st) @
                     [slice (fileText e) (fullStart s') (end' s')]\<rparr>"
      unfolding c k visit_identifier by simp
    then have "outputs stc = outputs st @ [''{ type: ''] @
                 [slice (fileText e) (fullStart s') (end' s')]"
      by (simp add: emit_def)
    with oc show "calleeOut = [slice (fileText e) (fullStart s') (end' s')]" by simp
  qed
  from vc oc ci em o la ao lf show ?thesis by blast
qed

lemma gatherParameters_has:
  "gatherParameters e params acc has = (ps, has') \<Longrightarrow> has' \<Longrightarrow>
   has \<or> list_ex (\<lambda>p. decoratorsToLower e p \<noteq> []) params"
proof (induction params arbitrary: acc has)
  case Nil
  then show ?case by simp
next
  case (Cons p params)
  show ?case
  proof (cases "decoratorsOf p")
    case None
    with Cons.prems have
      "\<exists>acc'. gatherParameters e params acc' has = (ps, has')"
      by (auto simp: Let_def)
    then obtain acc' where "gatherParameters e params acc' has = (ps, has')" by blast
    from Cons.IH [OF this Cons.prems(2)] show ?thesis by auto
  next
    case (Some ds)
    with Cons.prems have
      "\<exists>acc'. gatherParameters e params acc' (length (decoratorsToLower e p) > 0) = (ps, has')"
      by (auto simp: Let_def)
    then obtain acc' where
      "gatherParameters e params acc' (length (decoratorsToLower e p) > 0) = (ps, has')" by blast
    from Cons.IH [OF this Cons.prems(2)] show ?thesis by auto
  qed
qed

lemma hasMetadata_converter:
  "currentDecoratorConverter st = Some v \<Longrightarrow> hasMetadata st = hasMetadataV v"
  by (simp add: hasMetadata_def hasMetadataV_def this_decorators_def this_ctorParameters_def
        this_propDecorators_def)

lemma gatherConstructor_has:
  assumes "hasMetadataV (gatherConstructor e n v)"
  shows "hasMetadataV v \<or> list_ex (\<lambda>p. decoratorsToLower e p \<noteq> []) (parameters n)"
proof -
  obtain ps has where g: "gatherParameters e (parameters n) [] False = (ps, has)"
    by (cases "gatherParameters e (parameters n) [] False")
  show ?thesis
  proof (cases "decorators v \<noteq> None")
    case True
    then show ?thesis by (simp add: hasMetadataV_def)
  next
    case False
    show ?thesis
    proof (cases has)
      case True
      from gatherParameters_has [OF g True] show ?thesis by simp
    next
      case f: False
      with False g have "gatherConstructor e n v = v" by (simp add: gatherConstructor_def)
      with assms show ?thesis by simp
    qed
  qed
qed

lemma gatherMethodOrProperty_has:
  assumes g: "gatherMethodOrProperty e m v st = (v', st')" and h: "hasMetadataV v'"
      and k: "m = DeclarationNode k s ds ms n tps ps ty b"
             "k = PropertyDeclaration \<or> k = SetAccessor \<or> k = GetAccessor \<or> k = MethodDeclaration"
  shows "hasMetadataV v \<or> lowerableMember e m \<noteq> None"
proof (cases "v' = v")
  case True
  with h show ?thesis by simp
next
  case False
  with g k show ?thesis
    by (auto simp: gatherMethodOrProperty_def Let_def
             split: option.splits node.splits if_splits)
qed

lemma runBeforeProcessNode_has:
  assumes "hasMetadata (runBeforeProcessNode e n st)"
  shows "hasMetadata st \<or> gatherSite e n"
proof (cases "currentDecoratorConverter st")
  case None
  with assms show ?thesis by (simp add: runBeforeProcessNode_def)
next
  case (Some v)
  obtain v' st' where b: "beforeProcessNode e n v st = (v', st')"
    by (cases "beforeProcessNode e n v st")
  with Some assms have h: "hasMetadataV v'"
    by (simp add: runBeforeProcessNode_def hasMetadata_converter)
  note hv = hasMetadata_converter [OF Some]
  show ?thesis
  proof (cases n)
    case (DeclarationNode k s ds ms nm tps ps ty bd)
    show ?thesis
    proof (cases "k = Constructor")
      case True
      with b DeclarationNode have "v' = gatherConstructor e n v" by simp
      with h gatherConstructor_has [of e n v] have
        "hasMetadataV v \<or> list_ex (\<lambda>p. decoratorsToLower e p \<noteq> []) (parameters n)" by simp
      then show ?thesis using True DeclarationNode hv by auto
    next
      case False
      show ?thesis
      proof (cases "k = PropertyDeclaration \<or> k = SetAccessor \<or> k = GetAccessor \<or> k = MethodDeclaration")
        case True
        with b False DeclarationNode have "gatherMethodOrProperty e n v st = (v', st')" by simp
        from gatherMethodOrProperty_has [OF this h DeclarationNode True]
        show ?thesis using False DeclarationNode hv by auto
      next
        case f: False
        with b False DeclarationNode have "v' = v" by simp
        with h hv show ?thesis by simp
      qed
    qed
  qed (use b h hv in auto)
qed

lemma hasMetadata_writeRange [simp]: "hasMetadata (writeRange e a b st) = hasMetadata st"
  by (rule this_cong(6)) (simp add: writeRange_def emit_def)

lemma writeChildren_has:
  assumes ok: "okJ e k V"
  shows "\<forall>c \<in> set cs. fits k c \<Longrightarrow> writeChildren V e pos cs st = Some (pos', st') \<Longrightarrow>
         hasMetadata st' \<Longrightarrow>
         hasMetadata st \<or> (\<exists>c \<in> set cs. \<exists>m. within c m \<and> gatherSite e m)"
proof (induction cs arbitrary: pos st)
  case Nil
  then show ?case by simp
next
  case (Cons c cs)
  from Cons.prems(2) obtain st1 where
    v: "V c (writeRange e pos (getFullStart c) st) = Some st1" and
    w: "writeChildren V e (getEnd c) cs st1 = Some (pos', st')"
    by (auto split: option.splits)
  from Cons.prems(1) have fc: "fits k c" and fcs: "\<forall>c \<in> set cs. fits k c" by simp_all
  from Cons.IH [OF fcs w Cons.prems(3)]
  have "hasMetadata st1 \<or> (\<exists>c \<in> set cs. \<exists>m. within c m \<and> gatherSite e m)" .
  then show ?case
  proof
    assume "hasMetadata st1"
    with ok fc v have "hasMetadata (writeRange e pos (getFullStart c) st) \<or>
                       (\<exists>m. within c m \<and> gatherSite e m)"
      unfolding okJ_def by blast
    then show ?thesis by auto
  next
    assume "\<exists>c \<in> set cs. \<exists>m. within c m \<and> gatherSite e m"
    then show ?thesis by auto
  qed
qed

lemma writeNodeFrom_has:
  assumes ok: "okJ e k V" and f: "fits (Suc k) n"
      and w: "writeNodeFrom V e n pos end st = Some st'" and h: "hasMetadata st'"
  shows "hasMetadata st \<or> (\<exists>m. within n m \<and> gatherSite e m)"
proof -
  from w obtain pos' st1 where
    wc: "writeChildren V e pos (forEachChild n) st = Some (pos', st1)" and
    s: "st' = writeRange e pos' end st1"
    by (auto simp: writeNodeFrom_def split: option.splits)
  from h s have h1: "hasMetadata st1" by simp
  from f have "\<forall>c \<in> set (forEachChild n). fits k c" by (simp add: list_all_iff)
  from writeChildren_has [OF ok this wc h1]
  show ?thesis by (auto intro: within_child)
qed

lemma visitWith_has:
  assumes ok: "okJ e k V" and f: "fits (Suc k) n"
      and v: "visitWith V e n st = Some st'" and h: "hasMetadata st'"
  shows "hasMetadata st \<or> (\<exists>m. within n m \<and> gatherSite e m)"
proof -
  let ?st0 = "runBeforeProcessNode e n st"
  have copy: "hasMetadata st \<or> (\<exists>m. within n m \<and> gatherSite e m)"
    if w: "writeNodeFrom V e n (getFullStart n) (getEnd n) ?st0 = Some st'"
  proof -
    from writeNodeFrom_has [OF ok f w h]
    have "hasMetadata ?st0 \<or> (\<exists>m. within n m \<and> gatherSite e m)" .
    then show ?thesis
    proof
      assume "hasMetadata ?st0"
      from runBeforeProcessNode_has [OF this] show ?thesis by (auto intro: within_refl)
    qed simp
  qed
  show ?thesis
  proof (cases "\<exists>d. n = DecoratorNode d")
    case True
    then obtain d where n: "n = DecoratorNode d" by blast
    show ?thesis
    proof (cases "currentDecoratorConverter st \<noteq> None \<and> shouldLower e d")
      case True
      with v have "st' = writeRange e (fullStart (decoratorSpan d)) (start (decoratorSpan d)) st"
        unfolding n visitWith_def maybeProcess_decorator
        by (auto simp: maybeProcessDecorator_def)
      with h show ?thesis by simp
    next
      case False
      with v have "writeNodeFrom V e n (getFullStart n) (getEnd n) ?st0 = Some st'"
        unfolding n visitWith_def maybeProcess_decorator
        by (auto simp: maybeProcessDecorator_def split: option.splits)
      then show ?thesis by (rule copy)
    qed
  next
    case False
    then have nd: "\<forall>d. n \<noteq> DecoratorNode d" by blast
    show ?thesis
    proof (cases "isClassDeclaration n")
      case True
      from v True obtain st3 where
        "st' = st3\<lparr>currentDecoratorConverter := currentDecoratorConverter st\<rparr>"
        by (auto simp: visitWith_def maybeProcess_other [OF nd] runBeforeProcessNode_class [OF True]
                       processClassDeclaration_def Let_def split: option.splits)
      then have "hasMetadata st' = hasMetadata st" by (intro this_cong(6)) simp
      with h show ?thesis by simp
    next
      case False
      with v have "writeNodeFrom V e n (getFullStart n) (getEnd n) ?st0 = Some st'"
        by (simp add: visitWith_def maybeProcess_other [OF nd])
      then show ?thesis by (rule copy)
    qed
  qed
qed

lemma visit_has: "okJ e k (visit e k)"
proof (induction k)
  case 0
  show ?case by (simp add: okJ_def)
next
  case (Suc k)
  show ?case
    unfolding okJ_def
  proof (intro allI impI)
    fix n st st'
    assume "fits (Suc k) n" and "visit e (Suc k) n st = Some st'" and "hasMetadata st'"
    then show "hasMetadata st \<or> (\<exists>m. within n m \<and> gatherSite e m)"
      using visitWith_has [OF Suc, of n st st'] by simp
  qed
qed

lemma Rel_converter:
  "Rel e A st st' \<Longrightarrow> (currentDecoratorConverter st' = None) = (currentDecoratorConverter st = None)"
  by (simp add: Rel_def)

lemma propHas_hasMetadata: "propHas st name \<Longrightarrow> hasMetadata st"
  by (auto simp: propHas_def hasMetadata_def split: option.splits)

lemma membersOf_children: "m \<in> set (membersOf n) \<Longrightarrow> m \<in> set (forEachChild n)"
  by (cases n) auto

lemma lowerableMember_gathered:
  assumes g: "lowerableMember e m = Some name" and cv: "currentDecoratorConverter st \<noteq> None"
  shows "propHas (runBeforeProcessNode e m st) name"
proof -
  from cv obtain v where v: "currentDecoratorConverter st = Some v" by blast
  from g obtain k s ds ms n tps ps ty b where m: "m = DeclarationNode k s ds ms n tps ps ty b"
    by (cases m) simp_all
  from g m obtain s' where n: "n = Some (IdentifierNode s' name)"
    by (cases n; cases "the n") (auto split: if_splits)
  from g m n have k: "k = PropertyDeclaration \<or> k = SetAccessor \<or> k = GetAccessor \<or> k = MethodDeclaration"
    and l: "decoratorsToLower e m \<noteq> []"
    by (auto split: if_splits)
  from l m obtain dl where ds: "ds = Some dl" by (cases ds) (simp_all add: decoratorsToLower_def)
  from k have nc: "k \<noteq> Constructor" by auto
  have "beforeProcessNode e m v st
          = (v\<lparr>propDecorators := Some (map_set name (decoratorsToLower e m)
                   (case propDecorators v of None \<Rightarrow> [] | Some x \<Rightarrow> x))\<rparr>, st)"
    using k nc l unfolding m n ds
    by (simp add: gatherMethodOrProperty_def Let_def)
  then show ?thesis
    using v by (simp add: runBeforeProcessNode_def propHas_def this_propDecorators_def
                  map_of_map_set)
qed

lemma lowerableMember_plain:
  assumes "lowerableMember e m = Some name"
  shows "(\<forall>d. m \<noteq> DecoratorNode d) \<and> \<not> isClassDeclaration m"
  using assms by (cases m) (auto split: option.splits node.splits if_splits)

lemma visit_member_propHas:
  assumes ok: "okV e k V" and f: "fits (Suc k) m" and g: "lowerableMember e m = Some name"
      and cv: "currentDecoratorConverter st \<noteq> None" and v: "visitWith V e m st = Some st'"
  shows "propHas st' name"
proof -
  let ?st0 = "runBeforeProcessNode e m st"
  from lowerableMember_plain [OF g] have nd: "\<forall>d. m \<noteq> DecoratorNode d"
    and nc: "\<not> isClassDeclaration m" by simp_all
  from v nc have w: "writeNodeFrom V e m (getFullStart m) (getEnd m) ?st0 = Some st'"
    by (simp add: visitWith_def maybeProcess_other [OF nd])
  from writeNodeFrom_ok [OF ok children_visitable [OF f], of "getFullStart m" "getEnd m" ?st0] w
  have "Rel e (decoratorsWithin m) ?st0 st'" by simp
  then show ?thesis using lowerableMember_gathered [OF g cv] by (rule Rel_propHas)
qed

lemma writeChildren_propHas:
  assumes ok: "okV e k V"
      and P: "\<And>st st'. currentDecoratorConverter st \<noteq> None \<Longrightarrow> V m st = Some st' \<Longrightarrow> propHas st' name"
  shows "\<forall>c \<in> set cs. visitable k A c \<Longrightarrow> m \<in> set cs \<Longrightarrow>
         currentDecoratorConverter st \<noteq> None \<Longrightarrow>
         writeChildren V e pos cs st = Some (pos', st') \<Longrightarrow> propHas st' name"
proof (induction cs arbitrary: pos st)
  case Nil
  then show ?case by simp
next
  case (Cons c cs)
  let ?s = "writeRange e pos (getFullStart c) st"
  from Cons.prems(1) have vc: "visitable k A c" and vcs: "\<forall>c \<in> set cs. visitable k A c"
    by simp_all
  from okV_visit [OF ok vc, of ?s] obtain st1 where
    v1: "V c ?s = Some st1" and r1: "Rel e A ?s st1" by blast
  have cs: "currentDecoratorConverter ?s \<noteq> None"
    using Cons.prems(3) sameVisitor_converter [OF sameVisitor_writeRange, of e pos "getFullStart c" st]
    by simp
  with Rel_converter [OF r1] have c1: "currentDecoratorConverter st1 \<noteq> None" by simp
  from Cons.prems(4) v1 have w: "writeChildren V e (getEnd c) cs st1 = Some (pos', st')" by simp
  show ?case
  proof (cases "m = c")
    case True
    with P [OF cs] v1 have p1: "propHas st1 name" by simp
    from writeChildren_ok [OF ok vcs, of "getEnd c" st1] w have "Rel e A st1 st'" by simp
    then show ?thesis using p1 by (rule Rel_propHas)
  next
    case False
    with Cons.prems(2) have "m \<in> set cs" by simp
    from Cons.IH [OF vcs this c1 w] show ?thesis .
  qed
qed

lemma class_member_gathered:
  assumes f: "fits (Suc k) n" and m: "m \<in> set (membersOf n)"
      and g: "lowerableMember e m = Some name"
      and w: "writeNodeFrom (visit e k) e n (getStart n) (getEnd n - 1) (classEntry e n st)
                = Some stBody"
  shows "propHas stBody name"
proof -
  from membersOf_children [OF m] have mc: "m \<in> set (forEachChild n)" .
  from fits_child [OF f mc] have fm: "fits k m" .
  then obtain j where k: "k = Suc j" by (cases k) auto
  have P: "\<And>st st'. currentDecoratorConverter st \<noteq> None \<Longrightarrow> visit e k m st = Some st' \<Longrightarrow>
             propHas st' name"
  proof -
    fix st st' assume cv: "currentDecoratorConverter st \<noteq> None" and v: "visit e k m st = Some st'"
    from v have v': "visitWith (visit e j) e m st = Some st'" unfolding k by simp
    from fm have fm': "fits (Suc j) m" unfolding k .
    from visit_member_propHas [OF visit_ok fm' g cv v'] show "propHas st' name" .
  qed
  have cv: "currentDecoratorConverter (classEntry e n st) \<noteq> None"
    by (simp add: classEntry_def writeRange_def emit_def)
  from w obtain pos' st1 where
    wc: "writeChildren (visit e k) e (getStart n) (forEachChild n) (classEntry e n st)
           = Some (pos', st1)" and
    sb: "stBody = writeRange e pos' (getEnd n - 1) st1"
    by (auto simp: writeNodeFrom_def split: option.splits)
  from writeChildren_propHas [OF visit_ok P children_visitable [OF f] mc cv wc]
  have "propHas st1 name" .
  then show ?thesis
    unfolding sb using sameVisitor_propHas [OF sameVisitor_writeRange, of e pos' "getEnd n - 1" st1]
    by simp
qed

text \<open>
  C1, amended. The visit of a class declaration writes a metadata block (a non-empty
  output of \<open>emitMetadataAsStaticProperties\<close>) only if a class-level decorator is to be
  lowered, or within the class there is a constructor with a parameter decorator to lower
  or a property, accessor or method named by a plain identifier with a decorator to lower;
  and it writes one whenever a class-level decorator is to be lowered, or a decorator of a
  member of the class that is a property, accessor or method named by a plain identifier.
  Members with other names contribute nothing.
\<close>

theorem metadata_block_conditions:
  assumes c: "isClassDeclaration n" and f: "fits (Suc k) n" and t: "classTerminator e n"
  shows "\<exists>stBody stBlock block.
           writeNodeFrom (visit e k) e n (getStart n) (getEnd n - 1) (classEntry e n st)
             = Some stBody \<and>
           emitMetadataAsStaticProperties (visit e k) e stBody = Some stBlock \<and>
           outputs stBlock = outputs stBody @ block \<and>
           visit e (Suc k) n st
             = Some (stBlock\<lparr>outputs := outputs stBody @ block @ [''}''],
                              currentDecoratorConverter := currentDecoratorConverter st\<rparr>) \<and>
           (concat block \<noteq> [] \<longrightarrow>
              decoratorsToLower e n \<noteq> [] \<or> (\<exists>m. within n m \<and> gatherSite e m)) \<and>
           (decoratorsToLower e n \<noteq> [] \<longrightarrow> concat block \<noteq> []) \<and>
           (\<forall>m \<in> set (membersOf n). lowerableMember e m \<noteq> None \<longrightarrow> concat block \<noteq> [])"
proof -
  let ?A = "decoratorsWithin n"
  note nd = isClassDeclaration_not_decorator [OF c]
  from visit_class [OF c f t, of st] obtain stBody stBlock block where
    w: "writeNodeFrom (visit e k) e n (getStart n) (getEnd n - 1) (classEntry e n st) = Some stBody"
    and r1: "Rel e ?A (classEntry e n st) stBody" and s1: "stored stBody \<subseteq> ?A" and
    m: "emitMetadataAsStaticProperties (visit e k) e stBody = Some stBlock" and
    b: "outputs stBlock = outputs stBody @ block" and
    v: "visit e (Suc k) n st
          = Some (stBlock\<lparr>outputs := outputs stBody @ block @ [''}''],
                           currentDecoratorConverter := currentDecoratorConverter st\<rparr>)"
    by blast
  from emitMetadata_ok [OF visit_ok [of e k] gatherable_class [OF f nd] s1] obtain st2 where
    c2: "emitMetadataAsStaticProperties (visit e k) e stBody = Some st2 \<and>
         Rel e (decoratorsWithin n) stBody st2 \<and>
         (\<not> hasMetadata stBody \<longrightarrow> st2 = stBody) \<and>
         (hasMetadata stBody \<longrightarrow> (\<exists>xs. concat xs \<noteq> [] \<and> outputs st2 = outputs stBody @ xs)) \<and>
         (\<forall>ds. this_decorators stBody = Some ds \<longrightarrow>
              (\<exists>entries rest. length entries = length ds \<and>
                 outputs st2 = outputs stBody @ [staticDecoratorsHeader] @
                    concat (map (\<lambda>entry. entry @ ['',\<newline>'']) entries) @ [''];\<newline>''] @ rest \<and>
                 list_all2 (entryOf (visit e k) e) ds entries))" ..
  note e2 = c2 [THEN conjunct1]
    and no = c2 [THEN conjunct2, THEN conjunct2, THEN conjunct1]
    and yes = c2 [THEN conjunct2, THEN conjunct2, THEN conjunct2, THEN conjunct1]
  from e2 m have eq: "st2 = stBlock" by simp
  have iff: "concat block \<noteq> [] \<longleftrightarrow> hasMetadata stBody"
  proof
    assume "concat block \<noteq> []"
    with b have "stBlock \<noteq> stBody" by auto
    with no eq show "hasMetadata stBody" by blast
  next
    assume "hasMetadata stBody"
    with yes eq obtain xs where "concat xs \<noteq> []" "outputs stBlock = outputs stBody @ xs" by blast
    with b show "concat block \<noteq> []" by simp
  qed
  have only: "concat block \<noteq> [] \<longrightarrow>
                decoratorsToLower e n \<noteq> [] \<or> (\<exists>m. within n m \<and> gatherSite e m)"
  proof
    assume "concat block \<noteq> []"
    with iff have "hasMetadata stBody" by simp
    from writeNodeFrom_has [OF visit_has f w this]
    show "decoratorsToLower e n \<noteq> [] \<or> (\<exists>m. within n m \<and> gatherSite e m)"
      by (simp add: hasMetadata_classEntry)
  qed
  have cls: "decoratorsToLower e n \<noteq> [] \<longrightarrow> concat block \<noteq> []"
  proof
    assume l: "decoratorsToLower e n \<noteq> []"
    from r1 have "this_decorators stBody = this_decorators (classEntry e n st)"
      by (simp add: Rel_def)
    with this_decorators_classEntry [OF l] have "hasMetadata stBody"
      by (simp add: hasMetadata_def)
    with iff show "concat block \<noteq> []" by simp
  qed
  have mem: "\<forall>m \<in> set (membersOf n). lowerableMember e m \<noteq> None \<longrightarrow> concat block \<noteq> []"
  proof (intro ballI impI)
    fix m assume mm: "m \<in> set (membersOf n)" and "lowerableMember e m \<noteq> None"
    then obtain name where g: "lowerableMember e m = Some name" by blast
    from class_member_gathered [OF f mm g w] have "propHas stBody name" .
    then have "hasMetadata stBody" by (rule propHas_hasMetadata)
    with iff show "concat block \<noteq> []" by simp
  qed
  from w m b v only cls mem show ?thesis by blast
qed

text \<open>
  C5, amended. For a property, accessor or method with decorators whose name is not a plain
  identifier, visited inside a class: the gathering step records the diagnostic at the
  member's position and leaves the visitor as it is (no entry is added), the visit of the
  member returns, with that diagnostic first among the new ones, and the member is then
  written by the ordinary traversal, in which every decorator to lower is replaced by its
  leading whitespace, as everywhere else.
\<close>

theorem strangely_named_method:
  assumes m: "m = DeclarationNode kd s (Some ds) ms nm tps ps ty b"
      and kd: "kd = PropertyDeclaration \<or> kd = SetAccessor \<or> kd = GetAccessor \<or> kd = MethodDeclaration"
      and nm: "\<forall>s' t. nm \<noteq> Some (IdentifierNode s' t)"
      and cv: "currentDecoratorConverter st \<noteq> None"
      and f: "fits (Suc k) m"
  shows "runBeforeProcessNode e m st
           = error m ''cannot process decorators on strangely named method'' st \<and>
         (\<exists>st' more.
            visit e (Suc k) m st = Some st' \<and>
            writeNodeFrom (visit e k) e m (getFullStart m) (getEnd m)
              (error m ''cannot process decorators on strangely named method'' st) = Some st' \<and>
            diagnostics st' = diagnostics st @
              \<lparr>position = getStart m,
               messageText = ''cannot process decorators on strangely named method''\<rparr> # more) \<and>
         (\<forall>d \<in> set ds. shouldLower e d \<longrightarrow>
            (\<forall>st1 j. currentDecoratorConverter st1 \<noteq> None \<longrightarrow>
               visit e (Suc j) (DecoratorNode d) st1
                 = Some (st1\<lparr>outputs := outputs st1 @
                     [slice (fileText e) (fullStart (decoratorSpan d)) (start (decoratorSpan d))]\<rparr>)))"
proof -
  let ?msg = "''cannot process decorators on strangely named method''"
  from cv obtain v where v: "currentDecoratorConverter st = Some v" by blast
  from kd have nc: "kd \<noteq> Constructor" and ncl: "kd \<noteq> ClassDeclaration" by auto
  have g: "gatherMethodOrProperty e m v st = (v, error m ?msg st)"
    using nm unfolding m
    by (cases nm; cases "the nm") (simp_all add: gatherMethodOrProperty_def)
  have b0: "beforeProcessNode e m v st = (v, error m ?msg st)"
    using kd nc g unfolding m by auto
  have r: "runBeforeProcessNode e m st = error m ?msg st"
    using v b0 by (simp add: runBeforeProcessNode_def error_def)
  have nd: "\<forall>d. m \<noteq> DecoratorNode d" unfolding m by simp
  have ncd: "\<not> isClassDeclaration m" unfolding m using ncl by simp
  have vw: "visit e (Suc k) m st
              = writeNodeFrom (visit e k) e m (getFullStart m) (getEnd m) (error m ?msg st)"
    using ncd by (simp add: visitWith_def maybeProcess_other [OF nd] r)
  from writeNodeFrom_ok [OF visit_ok [of e k] children_visitable [OF f],
         of "getFullStart m" "getEnd m" "error m ?msg st"]
  obtain st' where
    w: "writeNodeFrom (visit e k) e m (getFullStart m) (getEnd m) (error m ?msg st) = Some st'"
    and rel: "Rel e (decoratorsWithin m) (error m ?msg st) st'"
    by blast
  from Rel_diagnostics [OF rel] obtain more where
    "diagnostics st' = diagnostics st @ \<lparr>position = getStart m, messageText = ?msg\<rparr> # more"
    by (auto simp: error_def)
  with vw w have two: "\<exists>st' more.
            visit e (Suc k) m st = Some st' \<and>
            writeNodeFrom (visit e k) e m (getFullStart m) (getEnd m) (error m ?msg st) = Some st' \<and>
            diagnostics st' = diagnostics st @
              \<lparr>position = getStart m, messageText = ?msg\<rparr> # more"
    by simp
  have three: "\<forall>d \<in> set ds. shouldLower e d \<longrightarrow>
            (\<forall>st1 j. currentDecoratorConverter st1 \<noteq> None \<longrightarrow>
               visit e (Suc j) (DecoratorNode d) st1
                 = Some (st1\<lparr>outputs := outputs st1 @
                     [slice (fileText e) (fullStart (decoratorSpan d)) (start (decoratorSpan d))]\<rparr>))"
    using visit_lowered_decorator by blast
  from r two three show ?thesis by (intro conjI)
qed

lemmas ex_defs = cls1_def cls2_def cls3_def cls4_def method1_def property3_def property4_def
  decoP1_def decoPa_def decoQ_def decoP0_def mkSpan_def

lemma shouldLower_P [simp]:
  "shouldLower (testEnv src) d = (calleeText (expression d) = ''P'')"
  by (simp add: shouldLower_def testEnv_def annotatedSite_def plainSite_def commentNode_def
        substring_def slice_def)

lemma fits_cls2: "fits (Suc (Suc (Suc (Suc 0)))) cls2"
  by (simp add: ex_defs)

lemma terminator_cls2: "classTerminator (testEnv src2) cls2"
  by (simp add: classTerminator_def testEnv_def src2_def getEnd_def ex_defs)

lemma toLower_cls2: "decoratorsToLower (testEnv src2) cls2 = [decoPa, decoP0]"
  by (simp add: decoratorsToLower_def ex_defs)

lemmas run_defs = visitWith_def maybeProcess_def Let_def runBeforeProcessNode_def
  processClassDeclaration_def visitClassContentIncludingDecorators_def classTerminator_def
  writeNodeFrom_def writeRange_def emit_def error_def getFullStart_def getStart_def getEnd_def
  newDecoratorClassVisitor_def decoratorsToLower_def maybeProcessDecorator_def
  emitMetadataAsStaticProperties_def emitStaticDecorators_def emitStaticCtorParameters_def
  emitStaticPropDecorators_def emitDecorator_def this_decorators_def this_ctorParameters_def
  this_propDecorators_def decoratorInvocations_def gatherMethodOrProperty_def
  gatherConstructor_def slice_def initialState_def

lemma testEnv_simps [simp]:
  "fileText (testEnv src) = src"
  "getSymbolAtType (testEnv src) = (\<lambda>ty. None)"
  by (simp_all add: testEnv_def)

text \<open>
  C5 as stated fails: the decorator does not stay in the output. For
  \<open>class X { @P [k]() {} }\<close> the diagnostic is recorded and the text \<open>@P\<close> is dropped.
\<close>

theorem computed_method_decorator_dropped:
  "src1 = ''class X { @P [k]() {} }'' \<and>
   decoratorsToLower (testEnv src1) method1 = [decoP1] \<and>
   process (testEnv src1) (Suc (Suc (Suc (Suc 0)))) cls1 =
     Some (''class X {  [k]() {} }'',
           [\<lparr>position = 10, messageText = ''cannot process decorators on strangely named method''\<rparr>])"
  by (simp add: process_def getOutput_def run_defs ex_defs src1_def)

theorem strangely_named_method_witness:
  "runBeforeProcessNode (testEnv src1) method1 (classEntry (testEnv src1) cls1 initialState)
     = error method1 ''cannot process decorators on strangely named method''
         (classEntry (testEnv src1) cls1 initialState) \<and>
   (\<exists>st' more.
      visit (testEnv src1) (Suc (Suc (Suc 0))) method1 (classEntry (testEnv src1) cls1 initialState)
        = Some st' \<and>
      diagnostics st' =
        \<lparr>position = 10, messageText = ''cannot process decorators on strangely named method''\<rparr>
          # more) \<and>
   visit (testEnv src1) (Suc 0) (DecoratorNode decoP1) (classEntry (testEnv src1) cls1 initialState)
     = Some ((classEntry (testEnv src1) cls1 initialState)
               \<lparr>outputs := outputs (classEntry (testEnv src1) cls1 initialState) @ ['' '']\<rparr>)"
proof -
  let ?e = "testEnv src1"
  let ?st = "classEntry ?e cls1 initialState"
  have m: "method1 = DeclarationNode MethodDeclaration (mkSpan 9 10 21) (Some [decoP1]) []
       (Some (OtherNode ''ComputedPropertyName'' (mkSpan 12 13 16) [IdentifierNode (mkSpan 14 14 15) ''k'']))
       [] [] None [OtherNode ''Block'' (mkSpan 18 19 21) []]"
    by (simp add: method1_def)
  have kd: "MethodDeclaration = PropertyDeclaration \<or> MethodDeclaration = SetAccessor \<or>
            MethodDeclaration = GetAccessor \<or> MethodDeclaration = MethodDeclaration"
    by simp
  have nm: "\<forall>s' t. Some (OtherNode ''ComputedPropertyName'' (mkSpan 12 13 16)
                         [IdentifierNode (mkSpan 14 14 15) ''k'']) \<noteq> Some (IdentifierNode s' t)"
    by simp
  have cv: "currentDecoratorConverter ?st \<noteq> None"
    by (simp add: classEntry_def writeRange_def emit_def)
  have f: "fits (Suc (Suc (Suc 0))) method1" by (simp add: ex_defs)
  have l: "shouldLower ?e decoP1" by (simp add: decoP1_def)
  have w: "slice src1 (fullStart (decoratorSpan decoP1)) (start (decoratorSpan decoP1)) = '' ''"
    by (simp add: slice_def src1_def decoP1_def mkSpan_def)
  have g: "getStart method1 = 10" by (simp add: getStart_def method1_def mkSpan_def)
  from strangely_named_method [OF m kd nm cv f, of ?e]
  have a: "runBeforeProcessNode ?e method1 ?st
             = error method1 ''cannot process decorators on strangely named method'' ?st"
    and b: "\<exists>st' more.
            visit ?e (Suc (Suc (Suc 0))) method1 ?st = Some st' \<and>
            writeNodeFrom (visit ?e (Suc (Suc 0))) ?e method1 (getFullStart method1) (getEnd method1)
              (error method1 ''cannot process decorators on strangely named method'' ?st) = Some st' \<and>
            diagnostics st' = diagnostics ?st @
              \<lparr>position = getStart method1,
               messageText = ''cannot process decorators on strangely named method''\<rparr> # more"
    and c: "\<forall>d \<in> set [decoP1]. shouldLower ?e d \<longrightarrow>
            (\<forall>st1 j. currentDecoratorConverter st1 \<noteq> None \<longrightarrow>
               visit ?e (Suc j) (DecoratorNode d) st1
                 = Some (st1\<lparr>outputs := outputs st1 @
                     [slice (fileText ?e) (fullStart (decoratorSpan d)) (start (decoratorSpan d))]\<rparr>))"
    by (rule conjunct1, rule conjunct2 [THEN conjunct1], rule conjunct2 [THEN conjunct2])
  have d0: "diagnostics ?st = []" by (simp add: classEntry_def writeRange_def emit_def initialState_def)
  from b g d0 have b': "\<exists>st' more.
      visit ?e (Suc (Suc (Suc 0))) method1 ?st = Some st' \<and>
      diagnostics st' =
        \<lparr>position = 10, messageText = ''cannot process decorators on strangely named method''\<rparr>
          # more"
    by auto
  from c l cv w have c': "visit ?e (Suc 0) (DecoratorNode decoP1) ?st
     = Some (?st\<lparr>outputs := outputs ?st @ ['' '']\<rparr>)"
    by simp
  from a b' c' show ?thesis by (intro conjI)
qed

text \<open>
  C1 as stated fails: the class \<open>Z\<close> has a member decorator declared under \<open>@Annotation\<close>,
  on a property with a computed name, and receives no metadata block.
\<close>

theorem computed_name_member_without_metadata:
  "src3 = ''class Z { @P [k]; }'' \<and>
   property3 \<in> set (membersOf cls3) \<and>
   decoratorsToLower (testEnv src3) property3 = [decoP1] \<and>
   process (testEnv src3) (Suc (Suc (Suc (Suc 0)))) cls3 =
     Some (''class Z {  [k]; }'',
           [\<lparr>position = 10, messageText = ''cannot process decorators on strangely named method''\<rparr>])"
  by (simp add: process_def getOutput_def run_defs ex_defs src3_def)

lemma terminator_cls4: "classTerminator (testEnv src4) cls4"
  by (simp add: classTerminator_def src4_def getEnd_def ex_defs)

theorem metadata_block_conditions_witness:
  "(\<exists>stBody stBlock block.
      emitMetadataAsStaticProperties (visit (testEnv src2) (Suc (Suc (Suc 0)))) (testEnv src2) stBody
        = Some stBlock \<and>
      outputs stBlock = outputs stBody @ block \<and>
      visit (testEnv src2) (Suc (Suc (Suc (Suc 0)))) cls2 initialState
        = Some (stBlock\<lparr>outputs := outputs stBody @ block @ [''}''],
                         currentDecoratorConverter := None\<rparr>) \<and>
      concat block \<noteq> []) \<and>
   (\<exists>stBody stBlock block.
      emitMetadataAsStaticProperties (visit (testEnv src4) (Suc (Suc (Suc 0)))) (testEnv src4) stBody
        = Some stBlock \<and>
      outputs stBlock = outputs stBody @ block \<and>
      visit (testEnv src4) (Suc (Suc (Suc (Suc 0)))) cls4 initialState
        = Some (stBlock\<lparr>outputs := outputs stBody @ block @ [''}''],
                         currentDecoratorConverter := None\<rparr>) \<and>
      concat block \<noteq> [])"
proof -
  have c2: "isClassDeclaration cls2" and c4: "isClassDeclaration cls4" by (simp_all add: ex_defs)
  have f4: "fits (Suc (Suc (Suc (Suc 0)))) cls4" by (simp add: ex_defs)
  have l2: "decoratorsToLower (testEnv src2) cls2 \<noteq> []" by (simp add: toLower_cls2)
  have m4: "property4 \<in> set (membersOf cls4)" by (simp add: cls4_def)
  have g4: "lowerableMember (testEnv src4) property4 \<noteq> None"
    by (simp add: property4_def decoratorsToLower_def decoP1_def)
  have n: "currentDecoratorConverter initialState = None" by (simp add: initialState_def)
  from metadata_block_conditions [OF c2 fits_cls2 terminator_cls2, of initialState] l2 n
  have one: "\<exists>stBody stBlock block.
      emitMetadataAsStaticProperties (visit (testEnv src2) (Suc (Suc (Suc 0)))) (testEnv src2) stBody
        = Some stBlock \<and>
      outputs stBlock = outputs stBody @ block \<and>
      visit (testEnv src2) (Suc (Suc (Suc (Suc 0)))) cls2 initialState
        = Some (stBlock\<lparr>outputs := outputs stBody @ block @ [''}''],
                         currentDecoratorConverter := None\<rparr>) \<and>
      concat block \<noteq> []"
    by (elim exE conjE) (intro exI conjI, assumption+, simp, blast)
  from metadata_block_conditions [OF c4 f4 terminator_cls4, of initialState] m4 g4 n
  have two: "\<exists>stBody stBlock block.
      emitMetadataAsStaticProperties (visit (testEnv src4) (Suc (Suc (Suc 0)))) (testEnv src4) stBody
        = Some stBlock \<and>
      outputs stBlock = outputs stBody @ block \<and>
      visit (testEnv src4) (Suc (Suc (Suc (Suc 0)))) cls4 initialState
        = Some (stBlock\<lparr>outputs := outputs stBody @ block @ [''}''],
                         currentDecoratorConverter := None\<rparr>) \<and>
      concat block \<noteq> []"
    by (elim exE conjE) (intro exI conjI, assumption+, simp, blast)
  from one two show ?thesis by (rule conjI)
qed

theorem static_decorators_count_witness:
  "\<exists>st' pre entries rest.
     visit (testEnv src2) (Suc (Suc (Suc (Suc 0)))) cls2 initialState = Some st' \<and>
     outputs st' = pre @ [staticDecoratorsHeader] @
        concat (map (\<lambda>entry. entry @ ['',\<newline>'']) entries) @ [''];\<newline>''] @ rest \<and>
     length entries = 2"
proof -
  have c2: "isClassDeclaration cls2" by (simp add: ex_defs)
  have l2: "decoratorsToLower (testEnv src2) cls2 \<noteq> []" by (simp add: toLower_cls2)
  from static_decorators_count [OF c2 fits_cls2 terminator_cls2 l2, of initialState]
  obtain st' pre entries rest where
    "visit (testEnv src2) (Suc (Suc (Suc (Suc 0)))) cls2 initialState = Some st'"
    "outputs st' = outputs initialState @ pre @ [staticDecoratorsHeader] @
        concat (map (\<lambda>entry. entry @ ['',\<newline>'']) entries) @ [''];\<newline>''] @ rest"
    "length entries = length (decoratorsToLower (testEnv src2) cls2)"
    by blast
  then have "visit (testEnv src2) (Suc (Suc (Suc (Suc 0)))) cls2 initialState = Some st' \<and>
     outputs st' = pre @ [staticDecoratorsHeader] @
        concat (map (\<lambda>entry. entry @ ['',\<newline>'']) entries) @ [''];\<newline>''] @ rest \<and>
     length entries = 2"
    by (simp add: toLower_cls2 initialState_def)
  then show ?thesis by blast
qed

theorem lowered_decorator_suppressed_witness:
  "visit (testEnv src2) (Suc 0) (DecoratorNode decoP0) (classEntry (testEnv src2) cls2 initialState)
     = Some ((classEntry (testEnv src2) cls2 initialState)
               \<lparr>outputs := outputs (classEntry (testEnv src2) cls2 initialState) @ ['' '']\<rparr>) \<and>
   (\<exists>stBody stBlock block.
      writeNodeFrom (visit (testEnv src2) (Suc (Suc (Suc 0)))) (testEnv src2) cls2 0 23
        (classEntry (testEnv src2) cls2 initialState) = Some stBody \<and>
      emitMetadataAsStaticProperties (visit (testEnv src2) (Suc (Suc (Suc 0)))) (testEnv src2) stBody
        = Some stBlock \<and>
      outputs stBlock = outputs stBody @ block \<and>
      visit (testEnv src2) (Suc (Suc (Suc (Suc 0)))) cls2 initialState
        = Some (stBlock\<lparr>outputs := outputs stBody @ block @ [''}''],
                         currentDecoratorConverter := None\<rparr>))"
proof -
  let ?e = "testEnv src2"
  let ?st = "classEntry ?e cls2 initialState"
  have l: "shouldLower ?e decoP0" by (simp add: decoP0_def)
  have cv: "currentDecoratorConverter ?st \<noteq> None"
    by (simp add: classEntry_def writeRange_def emit_def)
  have w: "slice src2 (fullStart (decoratorSpan decoP0)) (start (decoratorSpan decoP0)) = '' ''"
    by (simp add: slice_def src2_def decoP0_def mkSpan_def)
  have c2: "isClassDeclaration cls2" by (simp add: ex_defs)
  have g: "getStart cls2 = 0" "getEnd cls2 - 1 = 23" by (simp_all add: getStart_def getEnd_def ex_defs)
  have n: "currentDecoratorConverter initialState = None" by (simp add: initialState_def)
  from lowered_decorator_suppressed [where e = ?e and d = decoP0 and st = ?st and k = 0] l cv w
  have a: "visit ?e (Suc 0) (DecoratorNode decoP0) ?st = Some (?st\<lparr>outputs := outputs ?st @ ['' '']\<rparr>)"
    by simp
  from lowered_decorator_suppressed
         [where e = ?e and n = cls2 and st = initialState and k = "Suc (Suc (Suc 0))"]
       c2 fits_cls2 terminator_cls2 g n
  have b: "\<exists>stBody stBlock block.
      writeNodeFrom (visit ?e (Suc (Suc (Suc 0)))) ?e cls2 0 23 ?st = Some stBody \<and>
      emitMetadataAsStaticProperties (visit ?e (Suc (Suc (Suc 0)))) ?e stBody = Some stBlock \<and>
      outputs stBlock = outputs stBody @ block \<and>
      visit ?e (Suc (Suc (Suc (Suc 0)))) cls2 initialState
        = Some (stBlock\<lparr>outputs := outputs stBody @ block @ [''}''],
                         currentDecoratorConverter := None\<rparr>)"
    by simp
  from a b show ?thesis by (rule conjI)
qed

theorem decorator_entry_args_witness:
  "(\<exists>st'. emitDecorator (visit (testEnv src2) (Suc (Suc 0))) (testEnv src2) decoPa initialState
            = Some st' \<and>
          outputs st' = [''{ type: '', ''P'', '', args: ['', ''a'', '', '', '']'', '' }'']) \<and>
   (\<exists>st'. emitDecorator (visit (testEnv src2) (Suc (Suc 0))) (testEnv src2) decoP0 initialState
            = Some st' \<and>
          outputs st' = [''{ type: '', ''P'', '' }''])"
proof -
  let ?e = "testEnv src2"
  have xa: "expression decoPa =
              CallExpressionNode (mkSpan 1 1 5) (IdentifierNode (mkSpan 1 1 2) ''P'') []
                [IdentifierNode (mkSpan 3 3 4) ''a'']"
    by (simp add: decoPa_def)
  have x0: "expression decoP0 =
              CallExpressionNode (mkSpan 10 10 13) (IdentifierNode (mkSpan 10 10 11) ''P'') [] []"
    by (simp add: decoP0_def)
  have fa: "fits (Suc (Suc 0)) (expression decoPa)" by (simp add: decoPa_def)
  have f0: "fits (Suc (Suc 0)) (expression decoP0)" by (simp add: decoP0_def)
  have ta: "slice src2 (fullStart (mkSpan 1 1 2)) (end' (mkSpan 1 1 2)) = ''P''"
    and t0: "slice src2 (fullStart (mkSpan 10 10 11)) (end' (mkSpan 10 10 11)) = ''P''"
    and tx: "slice src2 (getStart (IdentifierNode (mkSpan 3 3 4) ''a''))
               (getEnd (IdentifierNode (mkSpan 3 3 4) ''a'')) = ''a''"
    by (simp_all add: slice_def src2_def mkSpan_def getStart_def getEnd_def)
  from decorator_entry_args [OF xa fa, of ?e initialState]
  obtain st' stc calleeOut outs where
    c: "\<forall>s' t. IdentifierNode (mkSpan 1 1 2) ''P'' = IdentifierNode s' t \<longrightarrow>
              calleeOut = [slice (fileText ?e) (fullStart s') (end' s')]" and
    e: "emitDecorator (visit ?e (Suc (Suc 0))) ?e decoPa initialState = Some st'" and
    o: "outputs st' = outputs initialState @ [''{ type: ''] @ calleeOut @
             (if [IdentifierNode (mkSpan 3 3 4) ''a''] = [] then []
              else ['', args: [''] @ concat (map (\<lambda>out. out @ ['', '']) outs) @ ['']'']) @
             ['' }'']" and
    l: "length outs = length [IdentifierNode (mkSpan 3 3 4) ''a'']" and
    lf: "\<forall>i < length [IdentifierNode (mkSpan 3 3 4) ''a''].
           forEachChild ([IdentifierNode (mkSpan 3 3 4) ''a''] ! i) = [] \<longrightarrow>
           outs ! i = [slice (fileText ?e) (getStart ([IdentifierNode (mkSpan 3 3 4) ''a''] ! i))
                         (getEnd ([IdentifierNode (mkSpan 3 3 4) ''a''] ! i))]"
    by blast
  from c ta have co: "calleeOut = [''P'']" by simp
  from l obtain out where outs: "outs = [out]" by (cases outs) auto
  from lf outs tx have "out = [''a'']" by simp
  with o outs co have "outputs st' = [''{ type: '', ''P'', '', args: ['', ''a'', '', '', '']'', '' }'']"
    by (simp add: initialState_def)
  with e have one: "\<exists>st'. emitDecorator (visit ?e (Suc (Suc 0))) ?e decoPa initialState = Some st' \<and>
          outputs st' = [''{ type: '', ''P'', '', args: ['', ''a'', '', '', '']'', '' }'']"
    by blast
  from decorator_entry_args [OF x0 f0, of ?e initialState]
  obtain st0 stc0 calleeOut0 outs0 where
    c0: "\<forall>s' t. IdentifierNode (mkSpan 10 10 11) ''P'' = IdentifierNode s' t \<longrightarrow>
              calleeOut0 = [slice (fileText ?e) (fullStart s') (end' s')]" and
    e0: "emitDecorator (visit ?e (Suc (Suc 0))) ?e decoP0 initialState = Some st0" and
    o0: "outputs st0 = outputs initialState @ [''{ type: ''] @ calleeOut0 @
             (if ([]::node list) = [] then []
              else ['', args: [''] @ concat (map (\<lambda>out. out @ ['', '']) outs0) @ ['']'']) @
             ['' }'']"
    by blast
  from c0 t0 have "calleeOut0 = [''P'']" by simp
  with o0 have "outputs st0 = [''{ type: '', ''P'', '' }'']"
    by (simp add: initialState_def)
  with e0 have two: "\<exists>st'. emitDecorator (visit ?e (Suc (Suc 0))) ?e decoP0 initialState = Some st' \<and>
          outputs st' = [''{ type: '', ''P'', '' }'']"
    by blast
  from one two show ?thesis by (rule conjI)
qed

end
